theory Spec2Isabelle
  imports Main "HOL-Library.Finite_Map"
begin

section \<open>Values of the configuration database\<close>

text \<open>
  The database \<open>ARMPLATDB\<close> is a Python dict whose values are strings, nested dicts and
  lists. \<open>Database.lookup\<close> returns one of those, or \<open>None\<close>, or \<open>True\<close>. A dict is a finite
  map from strings to values: Python compares dicts regardless of insertion order and a
  key occurs once. Lists (and any other value that is neither a string nor a dict) are
  opaque to \<open>lookup\<close>.
\<close>

datatype val =
    VNone
  | VBool bool
  | VStr string
  | VDict "(string, val) fmap"
  | VList "val list"

type_synonym dict = "(string, val) fmap"

text \<open>
  Every \<open>script.abort\<close> of \<open>lookup\<close> is called with the default \<open>hard=True\<close>, which ends in
  \<open>sys.exit\<close>; the message tells the aborts apart. \<open>TypeError\<close> is the exception Python
  raises when \<open>str.replace\<close> is given a replacement that is not a string; \<open>lookup\<close> does not
  catch it.
\<close>

datatype error =
    NotFound
  | MalformedReference
  | SelfReference
  | NonTerminatingReference
  | InvalidContext
  | TypeError

text \<open>\<open>None\<close> is an exhausted recursion budget: the call has not returned.\<close>

type_synonym 'a result = "(error + 'a) option"

section \<open>The string operations of Python that lookup uses\<close>

text \<open>\<open>s.find(c)\<close> for a single character: the first index, or \<open>-1\<close>.\<close>

fun find_chr :: "char \<Rightarrow> string \<Rightarrow> int" where
  "find_chr c [] = - 1"
| "find_chr c (x # xs) =
     (if x = c then 0 else (let i = find_chr c xs in if i < 0 then - 1 else i + 1))"

text \<open>\<open>s[i:j]\<close>: a negative bound counts from the end, and both are clipped to the string.\<close>

definition slice_bound :: "nat \<Rightarrow> int \<Rightarrow> nat" where
  "slice_bound n i = (if i < 0 then nat (max 0 (i + int n)) else min n (nat i))"

definition slice :: "string \<Rightarrow> int \<Rightarrow> int \<Rightarrow> string" where
  "slice s i j =
     (let a = slice_bound (length s) i; b = slice_bound (length s) j
      in take (b - a) (drop a s))"

text \<open>
  \<open>s.replace(old, new)\<close>: every non-overlapping occurrence of \<open>old\<close>, scanning from the
  left; an empty \<open>old\<close> matches before every character and at the end.
\<close>

function replace_scan :: "string \<Rightarrow> string \<Rightarrow> string \<Rightarrow> string" where
  "replace_scan [] old new = []"
| "replace_scan (c # cs) old new =
     (if old \<noteq> [] \<and> take (length old) (c # cs) = old
      then new @ replace_scan (drop (length old) (c # cs)) old new
      else c # replace_scan cs old new)"
  by pat_completeness auto
termination
  by (relation "measure (\<lambda>(s, old, new). length s)") auto

definition replace :: "string \<Rightarrow> string \<Rightarrow> string \<Rightarrow> string" where
  "replace s old new =
     (if old = [] then new @ concat (map (\<lambda>c. c # new) s) else replace_scan s old new)"

text \<open>\<open>s.split(".")\<close>: never empty; an empty string gives one empty segment.\<close>

fun split_dot :: "string \<Rightarrow> string list" where
  "split_dot [] = [[]]"
| "split_dot (c # cs) =
     (if c = CHR ''.'' then [] # split_dot cs
      else (case split_dot cs of w # ws \<Rightarrow> (c # w) # ws | [] \<Rightarrow> [[c]]))"

definition startswith_hash :: "string \<Rightarrow> bool" where
  "startswith_hash s = (case s of [] \<Rightarrow> False | c # cs \<Rightarrow> c = CHR ''#'')"

section \<open>Database.lookup\<close>

text \<open>
  \<open>subPlat\<close>: replaces \<open>@\<close> by the platform key; with \<open>plat=None\<close> the \<open>TypeError\<close> of
  \<open>str.replace\<close> is caught and turned into an abort.
\<close>

definition subPlat :: "string option \<Rightarrow> string \<Rightarrow> error + string" where
  "subPlat plat k =
     (if CHR ''@'' \<in> set k
      then (case plat of None \<Rightarrow> Inl InvalidContext | Some p \<Rightarrow> Inr (replace k ''@'' p))
      else Inr k)"

text \<open>\<open>assimilate(src)\<close>: \<open>d.update({k:v})\<close> for every item of \<open>src\<close>.\<close>

definition assimilate :: "dict \<Rightarrow> dict \<Rightarrow> dict" where
  "assimilate d src = d ++\<^sub>f src"

text \<open>\<open>lookupLvl[k] if k in lookupLvl else d[k] if k in d else None\<close>\<close>

definition level_item :: "dict \<Rightarrow> dict \<Rightarrow> string \<Rightarrow> val" where
  "level_item lookupLvl d k =
     (case fmlookup lookupLvl k of Some v \<Rightarrow> v
      | None \<Rightarrow> (case fmlookup d k of Some v \<Rightarrow> v | None \<Rightarrow> VNone))"

text \<open>The test guarding the cross-reference to a dict or list.\<close>

definition is_hash_ref :: "val \<Rightarrow> bool" where
  "is_hash_ref item =
     (case item of
        VStr s \<Rightarrow> startswith_hash s \<and> count_list s CHR ''{'' = 1 \<and> count_list s CHR ''}'' = 1
      | _ \<Rightarrow> False)"

text \<open>\<open>item[l+1:r]\<close> and \<open>item[l:r+1]\<close> with \<open>(l, r) = (item.find("{"), item.find("}"))\<close>.\<close>

definition search_of :: "string \<Rightarrow> string" where
  "search_of item = slice item (find_chr CHR ''{'' item + 1) (find_chr CHR ''}'' item)"

definition replace_of :: "string \<Rightarrow> string" where
  "replace_of item = slice item (find_chr CHR ''{'' item) (find_chr CHR ''}'' item + 1)"

text \<open>The last statement of \<open>lookup\<close>.\<close>

definition finish :: "bool \<Rightarrow> val \<Rightarrow> val result" where
  "finish noneAllowed item =
     (if item = VNone \<and> \<not> noneAllowed then Some (Inl NotFound) else Some (Inr item))"

text \<open>
  \<open>lookup n db self key plat noneAllowed\<close> is \<open>self.lookup(key, plat, noneAllowed)\<close> where
  \<open>db\<close> is the global \<open>ARMPLATDB\<close> that \<open>dblu\<close> reads, and \<open>n\<close> bounds the depth of nested
  calls and the passes of the \<open>while\<close> loop. \<open>walk\<close> is the \<open>for\<close> loop over the segments of
  the key, \<open>substitute\<close> the \<open>while\<close> loop over the cross-references of a string.
\<close>

function (sequential) lookup :: "nat \<Rightarrow> dict \<Rightarrow> dict \<Rightarrow> string \<Rightarrow> string option \<Rightarrow> bool \<Rightarrow> val result"
  and walk :: "nat \<Rightarrow> dict \<Rightarrow> string option \<Rightarrow> dict \<Rightarrow> dict \<Rightarrow> val \<Rightarrow> string list
                 \<Rightarrow> (dict \<times> val) result"
  and substitute :: "nat \<Rightarrow> dict \<Rightarrow> string option \<Rightarrow> dict \<Rightarrow> string \<Rightarrow> val result"
where
  "lookup 0 db self key plat noneAllowed = None"
| "lookup (Suc n) db self key plat noneAllowed =
     (case subPlat plat key of
        Inl e \<Rightarrow> Some (Inl e)
      | Inr key' \<Rightarrow>
          (case walk n db plat (assimilate fmempty self) (assimilate fmempty self) VNone
                  (split_dot key') of
             None \<Rightarrow> None
           | Some (Inl e) \<Rightarrow> Some (Inl e)
           | Some (Inr (d, item)) \<Rightarrow>
               (case item of
                  VStr s \<Rightarrow>
                    if ''{'' @ key @ ''}'' = s then Some (Inl SelfReference)
                    else if s = ''null'' then finish noneAllowed VNone
                    else if s = ''true'' then finish noneAllowed (VBool True)
                    else
                      (case subPlat plat s of
                         Inl e \<Rightarrow> Some (Inl e)
                       | Inr s' \<Rightarrow>
                           if count_list s' CHR ''{'' \<noteq> count_list s' CHR ''}''
                           then Some (Inl MalformedReference)
                           else
                             (case substitute n db plat d s' of
                                None \<Rightarrow> None
                              | Some (Inl e) \<Rightarrow> Some (Inl e)
                              | Some (Inr v) \<Rightarrow> finish noneAllowed v))
                | _ \<Rightarrow> finish noneAllowed item)))"
| "walk n db plat d lookupLvl item [] = Some (Inr (d, item))"
| "walk n db plat d lookupLvl item (k # ks) =
     (let item1 = level_item lookupLvl d k in
      if item1 = VNone then Some (Inr (d, VNone))
      else
        (case (if is_hash_ref item1
               then (case item1 of VStr s \<Rightarrow> lookup n db d (search_of s) plat False
                     | _ \<Rightarrow> Some (Inr item1))
               else Some (Inr item1)) of
           None \<Rightarrow> None
         | Some (Inl e) \<Rightarrow> Some (Inl e)
         | Some (Inr item2) \<Rightarrow>
             (case item2 of
                VDict m \<Rightarrow> walk n db plat (assimilate d m) m item2 ks
              | _ \<Rightarrow> walk n db plat d lookupLvl item2 ks)))"
| "substitute 0 db plat d item =
     (if CHR ''{'' \<in> set item then None else Some (Inr (VStr item)))"
| "substitute (Suc n) db plat d item =
     (if CHR ''{'' \<notin> set item then Some (Inr (VStr item))
      else
        (case lookup n db d (search_of item) plat False of
           None \<Rightarrow> None
         | Some (Inl e) \<Rightarrow> Some (Inl e)
         | Some (Inr (VStr sub)) \<Rightarrow>
             if replace item (replace_of item) sub = item
             then
               (case lookup n db db (search_of item) plat False of
                  None \<Rightarrow> None
                | Some (Inl e) \<Rightarrow> Some (Inl e)
                | Some (Inr (VStr sub')) \<Rightarrow>
                    if replace item (replace_of item) sub' = item
                    then Some (Inl NonTerminatingReference)
                    else substitute n db plat d (replace item (replace_of item) sub')
                | Some (Inr _) \<Rightarrow> Some (Inl TypeError))
             else substitute n db plat d (replace item (replace_of item) sub)
         | Some (Inr _) \<Rightarrow> Some (Inl TypeError)))"

  by pat_completeness auto
termination
  by (relation "measures
        [\<lambda>x. case x of Inl a \<Rightarrow> fst a | Inr (Inl a) \<Rightarrow> fst a | Inr (Inr a) \<Rightarrow> fst a,
         \<lambda>x. case x of Inl a \<Rightarrow> 0 | Inr (Inl a) \<Rightarrow> Suc (length (snd (snd (snd (snd (snd (snd a))))))) | Inr (Inr a) \<Rightarrow> 0]")
     auto

declare lookup.simps(2) [simp del] walk.simps(2) [simp del] substitute.simps(2) [simp del]

text \<open>\<open>multilookup\<close>: \<open>[self.lookup(root+"."+k, plat, noneAllowed) for k in keys]\<close>.\<close>

definition multilookup ::
  "nat \<Rightarrow> dict \<Rightarrow> dict \<Rightarrow> string \<Rightarrow> string list \<Rightarrow> string option \<Rightarrow> bool \<Rightarrow> val result list" where
  "multilookup n db self root keys plat noneAllowed =
     map (\<lambda>k. lookup n db self (root @ ''.'' @ k) plat noneAllowed) keys"

text \<open>\<open>dblu(key, plat, noneAllowed)\<close> is \<open>ARMPLATDB.lookup(key, plat, noneAllowed)\<close>.\<close>

definition dblu :: "nat \<Rightarrow> dict \<Rightarrow> string \<Rightarrow> string option \<Rightarrow> bool \<Rightarrow> val result" where
  "dblu n db key plat noneAllowed = lookup n db db key plat noneAllowed"

section \<open>Databases of the documentation\<close>

text \<open>The inheritance example of the comment above \<open>ARMPLATDB\<close>, under the key \<open>root\<close>.\<close>

definition people_db :: dict where
  "people_db = fmap_of_list [(''root'', VDict (fmap_of_list
     [(''surname'', VStr ''Smith''), (''john'', VDict fmempty), (''jane'', VDict fmempty),
      (''alexa'', VDict (fmap_of_list [(''surname'', VStr ''Smith-Doe'')]))]))]"

text \<open>A key whose value is the reference to itself.\<close>

definition selfref_db :: dict where
  "selfref_db = fmap_of_list [(''k'', VStr ''{k}'')]"

text \<open>Reserved literals, alone and inside a longer string.\<close>

definition literal_db :: dict where
  "literal_db = fmap_of_list [(''k'', VStr ''null''), (''t'', VStr ''true''), (''p'', VStr ''nullx'')]"

text \<open>Braces in a key, and a string whose braces do not pair up.\<close>

definition brace_db :: dict where
  "brace_db = fmap_of_list [(''a{b'', VStr ''v''), (''k'', VStr ''{a{b}}''), (''odd'', VStr ''a{b'')]"

text \<open>A string whose closing brace comes from the platform key.\<close>

definition at_db :: dict where
  "at_db = fmap_of_list [(''a'', VStr ''x''), (''k'', VStr ''{a@'')]"

text \<open>References to a key that is missing and to a key whose value is \<open>null\<close>.\<close>

definition missing_db :: dict where
  "missing_db = fmap_of_list [(''u'', VStr ''x{gone}''), (''v'', VStr ''y{nil}''),
     (''nil'', VStr ''null''), (''h'', VStr ''#{gone}'')]"

text \<open>A substitution that changes nothing: the empty key holds the empty string.\<close>

definition stall_db :: dict where
  "stall_db = fmap_of_list [([], VStr []), (''k'', VStr ''}{'')]"

text \<open>The same, where the root database holds another string under the empty key.\<close>

definition retry_db :: dict where
  "retry_db = fmap_of_list
     [([], VStr ''x''), (''m'', VDict (fmap_of_list [([], VStr []), (''k'', VStr ''}{'')]))]"

text \<open>The cross-reference example of the comment above \<open>ARMPLATDB\<close>.\<close>

definition arm_db :: dict where
  "arm_db = fmap_of_list [(''arm'', VDict (fmap_of_list
     [(''release'', VStr ''18.10''), (''url'', VStr ''https://example.com/''),
      (''title'', VStr ''Software {release}'')]))]"

text \<open>A cross-reference to a key that decodes to \<open>True\<close>.\<close>

definition flag_db :: dict where
  "flag_db = fmap_of_list [(''flag'', VStr ''true''), (''msg'', VStr ''is {flag}'')]"

text \<open>The hash reference example: a key that stands for a list.\<close>

definition alias_db :: dict where
  "alias_db = fmap_of_list
     [(''a'', VDict (fmap_of_list [(''k'', VList [VStr ''x'', VStr ''y''])])),
      (''b'', VDict (fmap_of_list [(''k'', VStr ''#{a.k}'')]))]"

text \<open>A hash reference to a string that substitution turns into \<open>null\<close>.\<close>

definition joined_db :: dict where
  "joined_db = fmap_of_list [(''a'', VStr ''{b}ll''), (''b'', VStr ''nu''), (''c'', VStr ''#{a}'')]"

text \<open>The inheritance example with the family at the root of the database.\<close>

definition family_db :: dict where
  "family_db = fmap_of_list
     [(''surname'', VStr ''Smith''), (''john'', VDict fmempty), (''jane'', VDict fmempty),
      (''alexa'', VDict (fmap_of_list [(''surname'', VStr ''Smith-Doe'')]))]"

text \<open>
  A string that becomes the reference to its own key only once the platform is put in,
  under a dict that holds another value for the same path.
\<close>

definition shadow_db :: dict where
  "shadow_db = fmap_of_list [(''m'', VDict (fmap_of_list
     [(''k'', VStr ''{@}''), (''m'', VDict (fmap_of_list [(''k'', VStr ''fine'')]))]))]"

text \<open>A missing key behind a reference that resolves, and behind one that is not a string.\<close>

definition later_db :: dict where
  "later_db = fmap_of_list [(''ok'', VStr ''fine''), (''w'', VStr ''{ok}{gone}''),
     (''flag'', VStr ''true''), (''msg'', VStr ''{flag}{gone}'')]"

text \<open>A stalled substitution whose reference is missing from the root database.\<close>

definition rootless_db :: dict where
  "rootless_db = fmap_of_list
     [(''m'', VDict (fmap_of_list [([], VStr []), (''k'', VStr ''}{'')]))]"

section \<open>The objects of a call\<close>

text \<open>
  In Python a dict is an object, and a dict stored under a key is a reference to one.
  The values of the first model are the contents of these objects, read through the
  references. This second model keeps the objects apart, so that it shows which of them a
  call of \<open>lookup\<close> creates, which it writes and which it only reads.

  The heap is the list of the dict objects that exist, an address is an index into it.
  A list is kept as the value it is: \<open>lookup\<close> never looks into one.
\<close>

type_synonym addr = nat

datatype oval =
    ONone
  | OBool bool
  | OStr string
  | ORef addr
  | OList "oval list"

type_synonym contents = "(string, oval) fmap"

type_synonym heap = "contents list"

text \<open>The contents of the object at an address.\<close>

definition obj :: "heap \<Rightarrow> addr \<Rightarrow> contents" where
  "obj h a = (if a < length h then h ! a else fmempty)"

text \<open>\<open>{}\<close>, \<open>Database(d)\<close> and \<open>Database(item)\<close>: a new object, at the address \<open>length h\<close>.\<close>

definition new_dict :: "heap \<Rightarrow> contents \<Rightarrow> heap" where
  "new_dict h c = h @ [c]"

text \<open>\<open>assimilate(src)\<close>: \<open>d.update({k:v})\<close> for every item of \<open>src\<close> writes the object \<open>d\<close>.\<close>

definition assimilate_h :: "heap \<Rightarrow> addr \<Rightarrow> addr \<Rightarrow> heap" where
  "assimilate_h h d src = h[d := obj h d ++\<^sub>f obj h src]"

definition level_item_h :: "contents \<Rightarrow> contents \<Rightarrow> string \<Rightarrow> oval" where
  "level_item_h lookupLvl d k =
     (case fmlookup lookupLvl k of Some v \<Rightarrow> v
      | None \<Rightarrow> (case fmlookup d k of Some v \<Rightarrow> v | None \<Rightarrow> ONone))"

definition is_hash_ref_h :: "oval \<Rightarrow> bool" where
  "is_hash_ref_h item =
     (case item of
        OStr s \<Rightarrow> startswith_hash s \<and> count_list s CHR ''{'' = 1 \<and> count_list s CHR ''}'' = 1
      | _ \<Rightarrow> False)"

type_synonym 'a outcome = "((error + 'a) \<times> heap) option"

definition finish_h :: "bool \<Rightarrow> oval \<Rightarrow> heap \<Rightarrow> oval outcome" where
  "finish_h noneAllowed item h =
     (if item = ONone \<and> \<not> noneAllowed then Some (Inl NotFound, h) else Some (Inr item, h))"

text \<open>
  \<open>lookup_h n h g self key plat noneAllowed\<close> is \<open>self.lookup(key, plat, noneAllowed)\<close> run
  on the heap \<open>h\<close>, where \<open>g\<close> is the address of the global \<open>ARMPLATDB\<close> and \<open>self\<close> the
  address of the object the method is called on. It returns the result with the heap the
  call leaves behind. In \<open>walk_h\<close> the names \<open>d\<close> and \<open>lookupLvl\<close> are addresses: they start
  as the same object, as in \<open>(lookupLvl, item) = (d, None)\<close>.
\<close>

function (sequential) lookup_h ::
    "nat \<Rightarrow> heap \<Rightarrow> addr \<Rightarrow> addr \<Rightarrow> string \<Rightarrow> string option \<Rightarrow> bool \<Rightarrow> oval outcome"
  and walk_h ::
    "nat \<Rightarrow> heap \<Rightarrow> addr \<Rightarrow> string option \<Rightarrow> addr \<Rightarrow> addr \<Rightarrow> oval \<Rightarrow> string list \<Rightarrow> oval outcome"
  and substitute_h ::
    "nat \<Rightarrow> heap \<Rightarrow> addr \<Rightarrow> string option \<Rightarrow> addr \<Rightarrow> string \<Rightarrow> oval outcome"
where
  "lookup_h 0 h g self key plat noneAllowed = None"
| "lookup_h (Suc n) h g self key plat noneAllowed =
     (case subPlat plat key of
        Inl e \<Rightarrow> Some (Inl e, h)
      | Inr key' \<Rightarrow>
          (case walk_h n (assimilate_h (new_dict h fmempty) (length h) self) g plat
                  (length h) (length h) ONone (split_dot key') of
             None \<Rightarrow> None
           | Some (Inl e, h') \<Rightarrow> Some (Inl e, h')
           | Some (Inr item, h') \<Rightarrow>
               (case item of
                  OStr s \<Rightarrow>
                    if ''{'' @ key @ ''}'' = s then Some (Inl SelfReference, h')
                    else if s = ''null'' then finish_h noneAllowed ONone h'
                    else if s = ''true'' then finish_h noneAllowed (OBool True) h'
                    else
                      (case subPlat plat s of
                         Inl e \<Rightarrow> Some (Inl e, h')
                       | Inr s' \<Rightarrow>
                           if count_list s' CHR ''{'' \<noteq> count_list s' CHR ''}''
                           then Some (Inl MalformedReference, h')
                           else
                             (case substitute_h n h' g plat (length h) s' of
                                None \<Rightarrow> None
                              | Some (Inl e, h'') \<Rightarrow> Some (Inl e, h'')
                              | Some (Inr v, h'') \<Rightarrow> finish_h noneAllowed v h''))
                | _ \<Rightarrow> finish_h noneAllowed item h')))"
| "walk_h n h g plat d lookupLvl item [] = Some (Inr item, h)"
| "walk_h n h g plat d lookupLvl item (k # ks) =
     (let item1 = level_item_h (obj h lookupLvl) (obj h d) k in
      if item1 = ONone then Some (Inr ONone, h)
      else
        (case (if is_hash_ref_h item1
               then (case item1 of
                       OStr s \<Rightarrow>
                         lookup_h n (new_dict h (obj h d)) g (length h) (search_of s) plat False
                     | _ \<Rightarrow> Some (Inr item1, h))
               else Some (Inr item1, h)) of
           None \<Rightarrow> None
         | Some (Inl e, h') \<Rightarrow> Some (Inl e, h')
         | Some (Inr item2, h') \<Rightarrow>
             (case item2 of
                ORef a \<Rightarrow>
                  walk_h n (assimilate_h (new_dict h' (obj h' a)) d (length h')) g plat
                    d (length h') (ORef (length h')) ks
              | _ \<Rightarrow> walk_h n h' g plat d lookupLvl item2 ks)))"
| "substitute_h 0 h g plat d item =
     (if CHR ''{'' \<in> set item then None else Some (Inr (OStr item), h))"
| "substitute_h (Suc n) h g plat d item =
     (if CHR ''{'' \<notin> set item then Some (Inr (OStr item), h)
      else
        (case lookup_h n (new_dict h (obj h d)) g (length h) (search_of item) plat False of
           None \<Rightarrow> None
         | Some (Inl e, h') \<Rightarrow> Some (Inl e, h')
         | Some (Inr (OStr sub), h') \<Rightarrow>
             if replace item (replace_of item) sub = item
             then
               (case lookup_h n h' g g (search_of item) plat False of
                  None \<Rightarrow> None
                | Some (Inl e, h'') \<Rightarrow> Some (Inl e, h'')
                | Some (Inr (OStr sub'), h'') \<Rightarrow>
                    if replace item (replace_of item) sub' = item
                    then Some (Inl NonTerminatingReference, h'')
                    else substitute_h n h'' g plat d (replace item (replace_of item) sub')
                | Some (Inr _, h'') \<Rightarrow> Some (Inl TypeError, h''))
             else substitute_h n h' g plat d (replace item (replace_of item) sub)
         | Some (Inr _, h') \<Rightarrow> Some (Inl TypeError, h')))"
  by pat_completeness auto
termination
  by (relation "measures
        [\<lambda>x. case x of Inl a \<Rightarrow> fst a | Inr (Inl a) \<Rightarrow> fst a | Inr (Inr a) \<Rightarrow> fst a,
         \<lambda>x. case x of Inl a \<Rightarrow> 0
              | Inr (Inl a) \<Rightarrow> Suc (length (snd (snd (snd (snd (snd (snd (snd a))))))))
              | Inr (Inr a) \<Rightarrow> 0]")
     auto

declare lookup_h.simps(2) [simp del] walk_h.simps(2) [simp del] substitute_h.simps(2) [simp del]

text \<open>
  What an object value stands for, in a heap whose dicts form a finite tree: the value of
  the first model that has the same strings, lists and, behind every reference, contents.
\<close>

inductive stands_for :: "heap \<Rightarrow> oval \<Rightarrow> val \<Rightarrow> bool" for h :: heap where
  none: "stands_for h ONone VNone"
| bool: "stands_for h (OBool b) (VBool b)"
| str: "stands_for h (OStr s) (VStr s)"
| ref: "a < length h \<Longrightarrow> fmrel (stands_for h) (h ! a) m \<Longrightarrow> stands_for h (ORef a) (VDict m)"
| list: "list_all2 (stands_for h) xs ys \<Longrightarrow> stands_for h (OList xs) (VList ys)"

text \<open>Every object of \<open>h\<close> is in \<open>h'\<close> as it was; and the same, but for the object \<open>d\<close>.\<close>

definition keeps :: "heap \<Rightarrow> heap \<Rightarrow> bool" where
  "keeps h h' \<longleftrightarrow> length h \<le> length h' \<and> (\<forall>a < length h. h' ! a = h ! a)"

definition keeps_but :: "addr \<Rightarrow> heap \<Rightarrow> heap \<Rightarrow> bool" where
  "keeps_but d h h' \<longleftrightarrow> length h \<le> length h' \<and> (\<forall>a < length h. a \<noteq> d \<longrightarrow> h' ! a = h ! a)"

text \<open>
  What a value returned by a call stands for: a reference returned is a reference to a
  copy made during the call, whose contents are values of the heap \<open>h0\<close> before it.
\<close>

definition held :: "heap \<Rightarrow> heap \<Rightarrow> oval \<Rightarrow> val \<Rightarrow> bool" where
  "held h0 h v pv =
     (case v of
        ORef a \<Rightarrow> a < length h \<and> (\<exists>m. pv = VDict m \<and> fmrel (stands_for h0) (h ! a) m)
      | _ \<Rightarrow> stands_for h0 v pv)"

text \<open>
  An outcome on objects against a result on values, for a call started on the heap \<open>h\<close>:
  neither returns, or both do, no object of \<open>h\<close> has changed (for a walk: none but \<open>d\<close>)
  and the two are the same abort or the value returned stands for the value returned.
\<close>

definition agree :: "heap \<Rightarrow> heap \<Rightarrow> oval outcome \<Rightarrow> val result \<Rightarrow> bool" where
  "agree h0 h x y =
     (case x of
        None \<Rightarrow> y = None
      | Some (r, h') \<Rightarrow> keeps h h' \<and> (\<exists>rp. y = Some rp \<and> rel_sum (=) (held h0 h') r rp))"

definition walked :: "heap \<Rightarrow> heap \<Rightarrow> addr \<Rightarrow> error + oval \<Rightarrow> error + dict \<times> val \<Rightarrow> bool" where
  "walked h0 h d r rp =
     (case r of
        Inl e \<Rightarrow> rp = Inl e
      | Inr item \<Rightarrow>
          (\<exists>dv itemv. rp = Inr (dv, itemv) \<and> fmrel (stands_for h0) (h ! d) dv \<and>
                       held h0 h item itemv))"

definition agree_walk ::
    "heap \<Rightarrow> heap \<Rightarrow> addr \<Rightarrow> oval outcome \<Rightarrow> (dict \<times> val) result \<Rightarrow> bool" where
  "agree_walk h0 h d x y =
     (case x of
        None \<Rightarrow> y = None
      | Some (r, h') \<Rightarrow> keeps_but d h h' \<and> (\<exists>rp. y = Some rp \<and> walked h0 h' d r rp))"

text \<open>
  \<open>lookup_h\<close> against \<open>lookup\<close> and \<open>substitute_h\<close> against \<open>substitute\<close> at one budget, on
  every heap that keeps the objects of \<open>h0\<close>.
\<close>

definition lookup_refined :: "heap \<Rightarrow> addr \<Rightarrow> dict \<Rightarrow> string option \<Rightarrow> nat \<Rightarrow> bool" where
  "lookup_refined h0 g dbv plat n \<longleftrightarrow>
     (\<forall>h self selfv key noneAllowed.
        keeps h0 h \<longrightarrow> self < length h \<longrightarrow> fmrel (stands_for h0) (h ! self) selfv \<longrightarrow>
        agree h0 h (lookup_h n h g self key plat noneAllowed)
                   (lookup n dbv selfv key plat noneAllowed))"

definition substitute_refined :: "heap \<Rightarrow> addr \<Rightarrow> dict \<Rightarrow> string option \<Rightarrow> nat \<Rightarrow> bool" where
  "substitute_refined h0 g dbv plat n \<longleftrightarrow>
     (\<forall>h d dv item.
        keeps h0 h \<longrightarrow> d < length h \<longrightarrow> fmrel (stands_for h0) (h ! d) dv \<longrightarrow>
        agree h0 h (substitute_h n h g plat d item) (substitute n dbv plat dv item))"

text \<open>The example of the documentation as objects: the root is object 0.\<close>

definition people_heap :: heap where
  "people_heap =
     [fmap_of_list [(''root'', ORef 1)],
      fmap_of_list [(''surname'', OStr ''Smith''), (''john'', ORef 2), (''jane'', ORef 3),
                    (''alexa'', ORef 4)],
      fmempty,
      fmempty,
      fmap_of_list [(''surname'', OStr ''Smith-Doe'')]]"

text \<open>
  The heap after \<open>lookup("root.alexa.surname")\<close> on it: the call has created \<open>d\<close>, which
  holds the keys of the root, of the family and of \<open>alexa\<close>, and \<open>Database(item)\<close> for
  the two dicts it has entered.
\<close>

definition people_heap_called :: heap where
  "people_heap_called =
     people_heap @
     [fmap_of_list [(''surname'', OStr ''Smith-Doe''), (''john'', ORef 2), (''jane'', ORef 3),
                    (''alexa'', ORef 4), (''root'', ORef 1)],
      fmap_of_list [(''surname'', OStr ''Smith''), (''john'', ORef 2), (''jane'', ORef 3),
                    (''alexa'', ORef 4)],
      fmap_of_list [(''surname'', OStr ''Smith-Doe'')]]"

section \<open>The recursion budget\<close>

text \<open>
  A call that has returned within some budget returns the same with any larger one: the
  budget only decides whether the model has been run for long enough.
\<close>

lemma substitute_plain:
  "CHR ''{'' \<notin> set item \<Longrightarrow> substitute n db plat d item = Some (Inr (VStr item))"
  by (cases n) (simp_all add: substitute.simps(2))

lemma walk_fuel_step:
  assumes L: "\<And>self key na r. lookup n db self key plat na = Some r
                \<Longrightarrow> lookup (Suc n) db self key plat na = Some r"
  shows "walk n db plat d lookupLvl item ks = Some r
           \<Longrightarrow> walk (Suc n) db plat d lookupLvl item ks = Some r"
proof (induction ks arbitrary: d lookupLvl item)
  case Nil
  then show ?case by simp
next
  case (Cons k ks)
  show ?case
  proof (cases "level_item lookupLvl d k = VNone")
    case True
    with Cons.prems show ?thesis by (simp add: walk.simps(2))
  next
    case False
    let ?it = "level_item lookupLvl d k"
    let ?deref = "\<lambda>m. if is_hash_ref ?it
               then (case ?it of VStr s \<Rightarrow> lookup m db d (search_of s) plat False
                     | _ \<Rightarrow> Some (Inr ?it))
               else Some (Inr ?it)"
    from Cons.prems False obtain x where x: "?deref n = Some x"
      by (cases "?deref n") (simp_all add: Let_def walk.simps(2))
    have x': "?deref (Suc n) = Some x"
      using x L by (auto split: val.splits if_splits)
    show ?thesis
    proof (cases x)
      case (Inl e)
      with Cons.prems False x x' show ?thesis by (simp add: Let_def walk.simps(2))
    next
      case (Inr item2)
      with Cons.prems False x x' show ?thesis
        by (cases item2) (simp_all add: Let_def walk.simps(2) Cons.IH)
    qed
  qed
qed

lemma substitute_unfold:
  "CHR ''{'' \<in> set item \<Longrightarrow>
   substitute (Suc n) db plat d item =
     (case lookup n db d (search_of item) plat False of
        None \<Rightarrow> None
      | Some (Inl e) \<Rightarrow> Some (Inl e)
      | Some (Inr (VStr sub)) \<Rightarrow>
          if replace item (replace_of item) sub = item
          then
            (case lookup n db db (search_of item) plat False of
               None \<Rightarrow> None
             | Some (Inl e) \<Rightarrow> Some (Inl e)
             | Some (Inr (VStr sub')) \<Rightarrow>
                 if replace item (replace_of item) sub' = item
                 then Some (Inl NonTerminatingReference)
                 else substitute n db plat d (replace item (replace_of item) sub')
             | Some (Inr _) \<Rightarrow> Some (Inl TypeError))
          else substitute n db plat d (replace item (replace_of item) sub)
      | Some (Inr _) \<Rightarrow> Some (Inl TypeError))"
  by (simp add: substitute.simps(2))

lemma substitute_fuel_step:
  assumes L: "\<And>self key na r. lookup n db self key plat na = Some r
                \<Longrightarrow> lookup (Suc n) db self key plat na = Some r"
    and S: "\<And>d item r. substitute n db plat d item = Some r
                \<Longrightarrow> substitute (Suc n) db plat d item = Some r"
  shows "substitute (Suc n) db plat d item = Some r
           \<Longrightarrow> substitute (Suc (Suc n)) db plat d item = Some r"
proof (cases "CHR ''{'' \<in> set item")
  case False
  assume "substitute (Suc n) db plat d item = Some r"
  with False show ?thesis by (simp add: substitute_plain)
next
  case True
  assume "substitute (Suc n) db plat d item = Some r"
  note A = this[unfolded substitute_unfold[OF True]]
  from A obtain x where x: "lookup n db d (search_of item) plat False = Some x"
    by (cases "lookup n db d (search_of item) plat False") simp_all
  note x' = L[OF x]
  show ?thesis
  proof (cases "\<exists>sub. x = Inr (VStr sub) \<and> replace item (replace_of item) sub = item")
    case False
    with A x x' show ?thesis unfolding substitute_unfold[OF True]
      by (cases x; cases "projr x") (auto simp add: S)
  next
    case T2: True
    then obtain sub where sub: "x = Inr (VStr sub)" "replace item (replace_of item) sub = item" by blast
    from A x sub obtain y where y: "lookup n db db (search_of item) plat False = Some y"
      by (cases "lookup n db db (search_of item) plat False") simp_all
    note y' = L[OF y]
    from A x x' y y' sub show ?thesis unfolding substitute_unfold[OF True]
      by (cases y; cases "projr y") (auto simp add: S split: if_splits)
  qed
qed

lemma lookup_fuel_step:
  assumes W: "\<And>d lookupLvl item ks r. walk n db plat d lookupLvl item ks = Some r
                \<Longrightarrow> walk (Suc n) db plat d lookupLvl item ks = Some r"
    and S: "\<And>d item r. substitute n db plat d item = Some r
                \<Longrightarrow> substitute (Suc n) db plat d item = Some r"
  shows "lookup (Suc n) db self key plat na = Some r
           \<Longrightarrow> lookup (Suc (Suc n)) db self key plat na = Some r"
proof -
  assume A: "lookup (Suc n) db self key plat na = Some r"
  show ?thesis
  proof (cases "subPlat plat key")
    case (Inl e)
    with A show ?thesis by (simp add: lookup.simps(2))
  next
    case (Inr key')
    let ?w = "\<lambda>m. walk m db plat (assimilate fmempty self) (assimilate fmempty self) VNone
                  (split_dot key')"
    from A Inr obtain x where x: "?w n = Some x"
      by (cases "?w n") (simp_all add: lookup.simps(2))
    note x' = W[OF x]
    show ?thesis
    proof (cases x)
      case (Inl e)
      with A Inr x x' show ?thesis by (simp add: lookup.simps(2))
    next
      case R: (Inr p)
      obtain d item where p: "p = (d, item)" by (cases p)
      show ?thesis
      proof (cases "\<exists>s s'. item = VStr s \<and> ''{'' @ key @ ''}'' \<noteq> s \<and> s \<noteq> ''null''
                 \<and> s \<noteq> ''true'' \<and> subPlat plat s = Inr s'
                 \<and> count_list s' CHR ''{'' = count_list s' CHR ''}''")
        case False
        with A Inr x x' R p show ?thesis
          by (cases item) (auto simp add: lookup.simps(2) split: sum.splits)
      next
        case True
        then obtain s s' where s: "item = VStr s" "''{'' @ key @ ''}'' \<noteq> s" "s \<noteq> ''null''"
          "s \<noteq> ''true''" "subPlat plat s = Inr s'"
          "count_list s' CHR ''{'' = count_list s' CHR ''}''" by blast
        from A Inr x R p s obtain y where y: "substitute n db plat d s' = Some y"
          by (cases "substitute n db plat d s'") (simp_all add: lookup.simps(2))
        note y' = S[OF y]
        from A Inr x x' R p s y y' show ?thesis
          by (simp add: lookup.simps(2))
      qed
    qed
  qed
qed

lemma fuel_Suc:
  "(\<forall>self key na r. lookup n db self key plat na = Some r
        \<longrightarrow> lookup (Suc n) db self key plat na = Some r) \<and>
   (\<forall>d lookupLvl item ks r. walk n db plat d lookupLvl item ks = Some r
        \<longrightarrow> walk (Suc n) db plat d lookupLvl item ks = Some r) \<and>
   (\<forall>d item r. substitute n db plat d item = Some r
        \<longrightarrow> substitute (Suc n) db plat d item = Some r)"
proof (induction n)
  case 0
  have L: "\<And>self key na r. lookup 0 db self key plat na = Some r
             \<Longrightarrow> lookup (Suc 0) db self key plat na = Some r" by simp
  have S: "\<And>d item r. substitute 0 db plat d item = Some r
             \<Longrightarrow> substitute (Suc 0) db plat d item = Some r"
    by (simp add: substitute.simps(2) split: if_splits)
  from L walk_fuel_step[of 0 db plat] S show ?case by blast
next
  case (Suc n)
  have L: "\<And>self key na r. lookup (Suc n) db self key plat na = Some r
             \<Longrightarrow> lookup (Suc (Suc n)) db self key plat na = Some r"
    using Suc lookup_fuel_step[of n db plat] by blast
  have S: "\<And>d item r. substitute (Suc n) db plat d item = Some r
             \<Longrightarrow> substitute (Suc (Suc n)) db plat d item = Some r"
    using Suc substitute_fuel_step[of n db plat] by blast
  from L walk_fuel_step[of "Suc n" db plat, OF L] S show ?case by blast
qed

lemma lookup_fuel_mono:
  "lookup n db self key plat na = Some r \<Longrightarrow> n \<le> m \<Longrightarrow> lookup m db self key plat na = Some r"
  by (induction m) (auto simp: le_Suc_eq fuel_Suc)

lemma walk_fuel_mono:
  "walk n db plat d lookupLvl item ks = Some r \<Longrightarrow> n \<le> m
     \<Longrightarrow> walk m db plat d lookupLvl item ks = Some r"
  by (induction m) (auto simp: le_Suc_eq fuel_Suc)

lemma substitute_fuel_mono:
  "substitute n db plat d item = Some r \<Longrightarrow> n \<le> m
     \<Longrightarrow> substitute m db plat d item = Some r"
  by (induction m) (auto simp: le_Suc_eq fuel_Suc)

section \<open>lookup after the walk\<close>

lemma assimilate_root: "assimilate fmempty self = self"
  by (simp add: assimilate_def)

lemma lookup_walked:
  assumes "subPlat plat key = Inr key'"
    and "walk n db plat self self VNone (split_dot key') = Some (Inr (d, item))"
  shows "lookup (Suc n) db self key plat noneAllowed =
     (case item of
        VStr s \<Rightarrow>
          if ''{'' @ key @ ''}'' = s then Some (Inl SelfReference)
          else if s = ''null'' then finish noneAllowed VNone
          else if s = ''true'' then finish noneAllowed (VBool True)
          else
            (case subPlat plat s of
               Inl e \<Rightarrow> Some (Inl e)
             | Inr s' \<Rightarrow>
                 if count_list s' CHR ''{'' \<noteq> count_list s' CHR ''}''
                 then Some (Inl MalformedReference)
                 else
                   (case substitute n db plat d s' of
                      None \<Rightarrow> None
                    | Some (Inl e) \<Rightarrow> Some (Inl e)
                    | Some (Inr v) \<Rightarrow> finish noneAllowed v))
      | _ \<Rightarrow> finish noneAllowed item)"
  using assms by (simp add: assimilate_root lookup.simps(2))

lemma lookup_walk_error:
  assumes "subPlat plat key = Inr key'"
    and "walk n db plat self self VNone (split_dot key') = Some (Inl e)"
  shows "lookup (Suc n) db self key plat noneAllowed = Some (Inl e)"
  using assms by (simp add: assimilate_root lookup.simps(2))

lemma lookup_walked_none:
  assumes "subPlat plat key = Inr key'"
    and "walk n db plat self self VNone (split_dot key') = Some (Inr (d, VNone))"
  shows "lookup (Suc n) db self key plat noneAllowed =
           (if noneAllowed then Some (Inr VNone) else Some (Inl NotFound))"
  by (simp add: lookup_walked[OF assms] finish_def)

lemma lookup_walked_null:
  assumes "subPlat plat key = Inr key'"
    and "walk n db plat self self VNone (split_dot key') = Some (Inr (d, VStr ''null''))"
  shows "lookup (Suc n) db self key plat noneAllowed =
           (if noneAllowed then Some (Inr VNone) else Some (Inl NotFound))"
  by (simp add: lookup_walked[OF assms] finish_def)

lemma people_walk_missing:
  "walk 0 people_db None people_db people_db VNone (split_dot ''root.john.age'')
     = Some (Inr (people_db ++\<^sub>f fmap_of_list
     [(''surname'', VStr ''Smith''), (''john'', VDict fmempty), (''jane'', VDict fmempty),
      (''alexa'', VDict (fmap_of_list [(''surname'', VStr ''Smith-Doe'')]))], VNone))"
  by (simp add: people_db_def level_item_def is_hash_ref_def assimilate_def Let_def walk.simps(2))

lemma people_john_surname:
  "lookup (Suc n) people_db people_db ''root.john.surname'' None False
     = Some (Inr (VStr ''Smith''))"
  by (simp add: people_db_def subPlat_def level_item_def is_hash_ref_def assimilate_def Let_def
        finish_def substitute_plain lookup.simps(2) walk.simps(2))

lemma selfref_walk:
  "walk 0 selfref_db None selfref_db selfref_db VNone (split_dot ''k'')
     = Some (Inr (selfref_db, VStr (''{'' @ ''k'' @ ''}'')))"
  by (simp add: selfref_db_def level_item_def is_hash_ref_def startswith_hash_def Let_def
        walk.simps(2))

lemmas lookup_eval = lookup.simps(2) walk.simps(2) substitute.simps(2) subPlat_def assimilate_def
  level_item_def is_hash_ref_def startswith_hash_def finish_def search_of_def replace_of_def
  slice_def slice_bound_def replace_def Let_def

lemma substitute_string:
  "substitute n db plat d item = Some (Inr v) \<Longrightarrow> \<exists>s. v = VStr s \<and> CHR ''{'' \<notin> set s"
proof (induction n arbitrary: item)
  case 0
  then show ?case by (auto split: if_splits)
next
  case (Suc n)
  show ?case
  proof (cases "CHR ''{'' \<in> set item")
    case False
    with Suc.prems show ?thesis by (auto simp: substitute_plain)
  next
    case True
    from Suc.prems[unfolded substitute_unfold[OF True]] Suc.IH show ?thesis
      by (auto split: option.splits sum.splits val.splits if_splits)
  qed
qed

lemma lookup_walked_substitute:
  assumes "subPlat plat key = Inr key'"
    and "walk n db plat self self VNone (split_dot key') = Some (Inr (d, VStr s))"
    and "''{'' @ key @ ''}'' \<noteq> s" "s \<noteq> ''null''" "s \<noteq> ''true''"
    and "subPlat plat s = Inr s'"
    and "count_list s' CHR ''{'' = count_list s' CHR ''}''"
  shows "lookup (Suc n) db self key plat noneAllowed =
           (case substitute n db plat d s' of
              None \<Rightarrow> None
            | Some (Inl e) \<Rightarrow> Some (Inl e)
            | Some (Inr v) \<Rightarrow> finish noneAllowed v)"
  using assms(3-) by (simp add: lookup_walked[OF assms(1,2)])

lemma lookup_not_found_nested:
  assumes "subPlat plat key = Inr key'"
    and "walk n db plat self self VNone (split_dot key') = Some (Inr (d, item))"
    and "item = VNone \<or> item = VStr ''null''"
  shows "lookup (Suc n) db self key plat False = Some (Inl NotFound)"
  using assms(3) lookup_walked_none[OF assms(1), of n db self d False]
    lookup_walked_null[OF assms(1), of n db self d False] assms(2)
  by auto

lemma walk_hash_error:
  assumes "level_item lookupLvl d k = VStr h" and "is_hash_ref (VStr h)"
    and "lookup n db d (search_of h) plat False = Some (Inl e)"
  shows "walk n db plat d lookupLvl item (k # ks) = Some (Inl e)"
  using assms by (simp add: walk.simps(2))

section \<open>Entering a dict\<close>

lemma assimilate_lookup:
  "fmlookup (assimilate d m) k = (case fmlookup m k of Some v \<Rightarrow> Some v | None \<Rightarrow> fmlookup d k)"
  by (auto simp: assimilate_def fmlookup_dom_iff split: option.splits)

lemma walk_enter:
  "level_item lookupLvl d k = VDict m \<Longrightarrow>
   walk n db plat d lookupLvl item (k # ks) = walk n db plat (assimilate d m) m (VDict m) ks"
  by (simp add: walk.simps(2) is_hash_ref_def)

lemma walk_keeps_keys:
  "walk n db plat d lookupLvl item ks = Some (Inr (d', item')) \<Longrightarrow> k |\<in>| fmdom d
     \<Longrightarrow> k |\<in>| fmdom d'"
proof (induction ks arbitrary: d lookupLvl item)
  case Nil
  then show ?case by simp
next
  case (Cons k' ks)
  have grow: "k |\<in>| fmdom (assimilate d m)" for m
    using Cons.prems(2) by (simp add: assimilate_def)
  from Cons.prems(1) show ?case
    using Cons.IH[OF _ Cons.prems(2)] Cons.IH[OF _ grow] Cons.prems(2)
    by (auto simp: walk.simps(2) Let_def split: if_splits option.splits sum.splits val.splits)
qed

section \<open>Walks and nested calls of the example databases\<close>

lemma literal_walk_null:
  "walk 0 literal_db None literal_db literal_db VNone (split_dot ''k'')
     = Some (Inr (literal_db, VStr ''null''))"
  by (simp add: literal_db_def lookup_eval)

lemma literal_walk_true:
  "walk 0 literal_db None literal_db literal_db VNone (split_dot ''t'')
     = Some (Inr (literal_db, VStr ''true''))"
  by (simp add: literal_db_def lookup_eval)

lemma brace_walk_odd:
  "walk 0 brace_db None brace_db brace_db VNone (split_dot ''odd'')
     = Some (Inr (brace_db, VStr ''a{b''))"
  by (simp add: brace_db_def lookup_eval)

lemma missing_walk_u:
  "walk 0 missing_db None missing_db missing_db VNone (split_dot ''u'')
     = Some (Inr (missing_db, VStr ''x{gone}''))"
  by (simp add: missing_db_def lookup_eval)

lemma missing_walk_v:
  "walk 0 missing_db None missing_db missing_db VNone (split_dot ''v'')
     = Some (Inr (missing_db, VStr ''y{nil}''))"
  by (simp add: missing_db_def lookup_eval)

lemma missing_walk_gone:
  "walk 0 missing_db None missing_db missing_db VNone (split_dot ''gone'')
     = Some (Inr (missing_db, VNone))"
  by (simp add: missing_db_def lookup_eval)

lemma missing_walk_nil:
  "walk 0 missing_db None missing_db missing_db VNone (split_dot ''nil'')
     = Some (Inr (missing_db, VStr ''null''))"
  by (simp add: missing_db_def lookup_eval)

lemma stall_walk:
  "walk (Suc (Suc 0)) stall_db None stall_db stall_db VNone (split_dot ''k'')
     = Some (Inr (stall_db, VStr ''}{''))"
  by (simp add: stall_db_def lookup_eval)

lemma stall_nested:
  "lookup (Suc 0) stall_db stall_db (search_of ''}{'') None False = Some (Inr (VStr []))"
  by (simp add: stall_db_def lookup_eval)

lemma retry_walk:
  "walk (Suc (Suc 0)) retry_db None retry_db retry_db VNone (split_dot ''m.k'')
     = Some (Inr (assimilate retry_db (fmap_of_list [([], VStr []), (''k'', VStr ''}{'')]),
                  VStr ''}{''))"
  by (simp add: retry_db_def lookup_eval)

lemma retry_nested:
  "lookup (Suc 0) retry_db
     (assimilate retry_db (fmap_of_list [([], VStr []), (''k'', VStr ''}{'')]))
     (search_of ''}{'') None False = Some (Inr (VStr []))"
  "lookup (Suc 0) retry_db retry_db (search_of ''}{'') None False = Some (Inr (VStr ''x''))"
  by (simp_all add: retry_db_def lookup_eval)

lemma later_walk_w:
  "walk (Suc (Suc (Suc 0))) later_db None later_db later_db VNone (split_dot ''w'')
     = Some (Inr (later_db, VStr ''{ok}{gone}''))"
  by (simp add: later_db_def lookup_eval)

lemma later_walk_gone:
  "walk 0 later_db None later_db later_db VNone (split_dot ''gone'')
     = Some (Inr (later_db, VNone))"
  by (simp add: later_db_def lookup_eval)

lemma later_nested_ok:
  "lookup (Suc (Suc 0)) later_db later_db (search_of ''{ok}{gone}'') None False
     = Some (Inr (VStr ''fine''))"
  by (simp add: later_db_def lookup_eval substitute_plain)

lemma rootless_walk:
  "walk (Suc (Suc 0)) rootless_db None rootless_db rootless_db VNone (split_dot ''m.k'')
     = Some (Inr (assimilate rootless_db (fmap_of_list [([], VStr []), (''k'', VStr ''}{'')]),
                  VStr ''}{''))"
  by (simp add: rootless_db_def lookup_eval)

lemma rootless_nested:
  "lookup (Suc 0) rootless_db
     (assimilate rootless_db (fmap_of_list [([], VStr []), (''k'', VStr ''}{'')]))
     (search_of ''}{'') None False = Some (Inr (VStr []))"
  by (simp add: rootless_db_def lookup_eval)

lemma rootless_walk_root:
  "walk 0 rootless_db None rootless_db rootless_db VNone (split_dot [])
     = Some (Inr (rootless_db, VNone))"
  by (simp add: rootless_db_def lookup_eval)

section \<open>The first cross-reference of a string\<close>

lemma find_chr_first: "c \<notin> set pre \<Longrightarrow> find_chr c (pre @ c # rest) = int (length pre)"
  by (induction pre) (auto simp: Let_def)

lemma first_token:
  assumes "CHR ''{'' \<notin> set pre" "CHR ''}'' \<notin> set pre" "CHR ''}'' \<notin> set x"
  shows "search_of (pre @ ''{'' @ x @ ''}'' @ rest) = x"
    and "replace_of (pre @ ''{'' @ x @ ''}'' @ rest) = ''{'' @ x @ ''}''"
proof -
  let ?item = "pre @ ''{'' @ x @ ''}'' @ rest"
  have l: "find_chr CHR ''{'' ?item = int (length pre)"
    using find_chr_first[OF assms(1), of "x @ ''}'' @ rest"] by simp
  have "CHR ''}'' \<notin> set (pre @ ''{'' @ x)"
    using assms(2,3) by simp
  from find_chr_first[OF this, of rest]
  have r: "find_chr CHR ''}'' ?item = int (length pre + 1 + length x)"
    by simp
  have n: "nat (int (length pre) + 1) = Suc (length pre)"
    "nat (1 + (int (length pre) + int (length x))) = Suc (length pre + length x)"
    "nat (2 + (int (length pre) + int (length x))) = Suc (Suc (length pre + length x))"
    by simp_all
  show "search_of ?item = x"
    using l r by (simp add: search_of_def slice_def slice_bound_def Let_def n)
  show "replace_of ?item = ''{'' @ x @ ''}''"
    using l r by (simp add: replace_of_def slice_def slice_bound_def Let_def n)
qed

lemma replace_scan_first:
  assumes "c \<notin> set pre"
  shows "replace_scan (pre @ (c # tok) @ rest) (c # tok) new
           = pre @ new @ replace_scan rest (c # tok) new"
  using assms by (induction pre) auto

lemma replace_first:
  assumes "CHR ''{'' \<notin> set pre"
  shows "replace (pre @ ''{'' @ x @ ''}'' @ rest) (''{'' @ x @ ''}'') new
           = pre @ new @ replace rest (''{'' @ x @ ''}'') new"
  using replace_scan_first[OF assms, of "x @ ''}''" rest new] by (simp add: replace_def)

lemma walk_hash_last:
  assumes "level_item lookupLvl d k = VStr h" and "is_hash_ref (VStr h)"
  shows "walk n db plat d lookupLvl item [k] =
           (case lookup n db d (search_of h) plat False of
              None \<Rightarrow> None
            | Some (Inl e) \<Rightarrow> Some (Inl e)
            | Some (Inr v) \<Rightarrow>
                Some (Inr (case v of VDict m \<Rightarrow> assimilate d m | _ \<Rightarrow> d, v)))"
  using assms by (simp add: walk.simps(2) split: option.splits sum.splits val.splits)

lemma arm_title:
  "lookup (Suc (Suc (Suc n))) arm_db arm_db ''arm.title'' None False
     = Some (Inr (VStr ''Software 18.10''))"
  by (simp add: arm_db_def lookup_eval substitute_plain)

lemma alias_walk:
  "walk (Suc 0) alias_db None alias_db alias_db VNone (split_dot ''b.k'')
     = Some (Inr (assimilate alias_db (fmap_of_list [(''k'', VStr ''#{a.k}'')]),
                  VList [VStr ''x'', VStr ''y'']))"
  by (simp add: alias_db_def lookup_eval substitute_plain)

section \<open>Absent keys\<close>

text \<open>
  C8. When the walk over the segments of the key ends without a value (a segment is
  neither in the current level nor in the assimilated keys), \<open>lookup\<close> aborts with
  \<open>NotFound\<close> if \<open>noneAllowed\<close> is false and returns \<open>None\<close> if it is true.
\<close>

theorem lookup_absent:
  assumes "subPlat plat key = Inr key'"
    and "walk n db plat self self VNone (split_dot key') = Some (Inr (d, VNone))"
  shows "lookup (Suc n) db self key plat False = Some (Inl NotFound) \<and>
         lookup (Suc n) db self key plat True = Some (Inr VNone)"
  by (simp add: lookup_walked_none[OF assms])

theorem lookup_absent_witness:
  "lookup (Suc 0) people_db people_db ''root.john.age'' None False = Some (Inl NotFound) \<and>
   lookup (Suc 0) people_db people_db ''root.john.age'' None True = Some (Inr VNone)"
proof -
  have h1: "subPlat None ''root.john.age'' = Inr ''root.john.age''"
    by (simp add: subPlat_def)
  show ?thesis by (rule lookup_absent[OF h1 people_walk_missing])
qed

section \<open>Self reference\<close>

text \<open>
  C5, as the code has it. When the item the walk ends on, as it is stored, is the string
  \<open>{key}\<close> for the key as it was passed, \<open>lookup\<close> aborts with \<open>SelfReference\<close> whatever the
  platform and \<open>noneAllowed\<close>, with the budget the walk alone needs: no cross-reference of
  the string is resolved first.
\<close>

theorem lookup_self_reference:
  assumes "subPlat plat key = Inr key'"
    and "walk n db plat self self VNone (split_dot key') = Some (Inr (d, VStr (''{'' @ key @ ''}'')))"
  shows "lookup (Suc n) db self key plat noneAllowed = Some (Inl SelfReference)"
  by (simp add: lookup_walked[OF assms])

theorem lookup_self_reference_witness:
  "lookup (Suc 0) selfref_db selfref_db ''k'' None True = Some (Inl SelfReference)"
proof -
  have h1: "subPlat None ''k'' = Inr ''k''"
    by (simp add: subPlat_def)
  show ?thesis by (rule lookup_self_reference[OF h1 selfref_walk])
qed

text \<open>
  C5 as stated fails for a string that is the reference to its own key only after the
  platform is put in: the test is made on the string as stored, before \<open>subPlat\<close>. Here the
  stored \<open>{@}\<close> becomes \<open>{m.k}\<close> for the key \<open>m.k\<close>, and the call resolves it in the
  assimilated keys and returns \<open>fine\<close>.
\<close>

theorem lookup_self_reference_counterexample:
  "fmlookup shadow_db ''m'' = Some (VDict (fmap_of_list
     [(''k'', VStr ''{@}''), (''m'', VDict (fmap_of_list [(''k'', VStr ''fine'')]))])) \<and>
   subPlat (Some ''m.k'') ''{@}'' = Inr (''{'' @ ''m.k'' @ ''}'') \<and>
   lookup 3 shadow_db shadow_db ''m.k'' (Some ''m.k'') False = Some (Inr (VStr ''fine''))"
  by (simp add: numeral_3_eq_3 shadow_db_def lookup_eval substitute_plain)

section \<open>Objects and the values they stand for\<close>

inductive_simps stands_for_simps [simp]:
  "stands_for h ONone pv" "stands_for h (OBool b) pv" "stands_for h (OStr s) pv"
  "stands_for h (ORef a) pv" "stands_for h (OList xs) pv"
  "stands_for h v VNone" "stands_for h v (VBool b)" "stands_for h v (VStr s)"
  "stands_for h v (VDict m)" "stands_for h v (VList ys)"

lemma keeps_refl: "keeps h h"
  by (simp add: keeps_def)

lemma keeps_trans: "keeps h h' \<Longrightarrow> keeps h' h'' \<Longrightarrow> keeps h h''"
  by (auto simp: keeps_def)

lemma keeps_new: "keeps h (new_dict h c)"
  by (simp add: keeps_def new_dict_def nth_append)

lemma keeps_but_keeps: "keeps_but d h h' \<Longrightarrow> length h0 \<le> d \<Longrightarrow> keeps h0 h \<Longrightarrow> keeps h0 h'"
  by (auto simp: keeps_def keeps_but_def)

lemma keeps_keeps_but: "keeps h h' \<Longrightarrow> keeps_but d h h'"
  by (auto simp: keeps_def keeps_but_def)

lemma keeps_but_trans: "keeps_but d h h' \<Longrightarrow> keeps_but d h' h'' \<Longrightarrow> keeps_but d h h''"
  by (auto simp: keeps_but_def)

lemma fmrel_level_item:
  assumes "fmrel (stands_for h0) lvl lvlv" and "fmrel (stands_for h0) d dv"
  shows "stands_for h0 (level_item_h lvl d k) (level_item lvlv dv k)"
proof -
  from assms have "rel_option (stands_for h0) (fmlookup lvl k) (fmlookup lvlv k)"
    "rel_option (stands_for h0) (fmlookup d k) (fmlookup dv k)"
    by (simp_all add: fmrel_iff)
  then show ?thesis
    by (auto simp: level_item_h_def level_item_def option.rel_sel split: option.splits)
qed

lemma fmrel_add:
  assumes "fmrel R a b" and "fmrel R c d"
  shows "fmrel R (a ++\<^sub>f c) (b ++\<^sub>f d)"
proof -
  have dom: "fmdom c = fmdom d"
    using assms(2) by (rule fmrel_fmdom_eq)
  show ?thesis
    using assms by (auto simp: fmrel_iff dom)
qed

lemma stands_for_hash: "stands_for h0 v pv \<Longrightarrow> is_hash_ref_h v = is_hash_ref pv"
  by (cases v) (auto simp: is_hash_ref_h_def is_hash_ref_def)

lemma stands_for_held:
  assumes "stands_for h0 v pv" and "keeps h0 h"
  shows "held h0 h v pv"
  using assms by (cases v) (auto simp: held_def keeps_def)

lemma held_str [simp]: "held h0 h (OStr s) pv \<longleftrightarrow> pv = VStr s"
  by (simp add: held_def)

lemma held_none [simp]: "held h0 h ONone pv \<longleftrightarrow> pv = VNone"
  by (simp add: held_def)

lemma held_bool [simp]: "held h0 h (OBool b) pv \<longleftrightarrow> pv = VBool b"
  by (simp add: held_def)

lemma held_scalar:
  assumes "held h0 h v pv" and "held h0 h' v' pv"
    and "\<forall>a. v \<noteq> ORef a" and "\<forall>xs. v \<noteq> OList xs"
  shows "v' = v"
  using assms by (cases v; cases v') (auto simp: held_def)

lemma agree_None [simp]: "agree h0 h None y \<longleftrightarrow> y = None"
  by (simp add: agree_def)

lemma agree_Some:
  "agree h0 h (Some (r, h')) y \<longleftrightarrow>
     keeps h h' \<and> (\<exists>rp. y = Some rp \<and> rel_sum (=) (held h0 h') r rp)"
  by (simp add: agree_def)

lemma agree_error: "keeps h h' \<Longrightarrow> agree h0 h (Some (Inl e, h')) (Some (Inl e))"
  by (simp add: agree_def)

lemma agree_value:
  "keeps h h' \<Longrightarrow> held h0 h' v pv \<Longrightarrow> agree h0 h (Some (Inr v, h')) (Some (Inr pv))"
  by (simp add: agree_def)

lemma agree_finish:
  assumes "keeps h h'" and "held h0 h' v pv"
  shows "agree h0 h (finish_h noneAllowed v h') (finish noneAllowed pv)"
  using assms by (cases v) (auto simp: finish_def finish_h_def held_def agree_def)

lemma agree_later:
  assumes "keeps h hx" and "agree h0 hx x y"
  shows "agree h0 h x y"
  using assms by (auto simp: agree_def split: option.splits intro: keeps_trans)

lemma agree_walk_None [simp]: "agree_walk h0 h d None y \<longleftrightarrow> y = None"
  by (simp add: agree_walk_def)

lemma agree_walk_Some:
  "agree_walk h0 h d (Some (r, h')) y \<longleftrightarrow>
     keeps_but d h h' \<and> (\<exists>rp. y = Some rp \<and> walked h0 h' d r rp)"
  by (simp add: agree_walk_def)

lemma agree_walk_later:
  assumes "keeps_but d h hx" and "agree_walk h0 hx d x y"
  shows "agree_walk h0 h d x y"
  using assms by (auto simp: agree_walk_def split: option.splits intro: keeps_but_trans)

section \<open>The calls on objects and the calls on values\<close>

lemma obj_at [simp]: "a < length h \<Longrightarrow> obj h a = h ! a"
  by (simp add: obj_def)

lemma lookup_refinedD:
  assumes "lookup_refined h0 g dbv plat n"
    and "keeps h0 h" and "self < length h" and "fmrel (stands_for h0) (h ! self) selfv"
  shows "agree h0 h (lookup_h n h g self key plat noneAllowed)
                    (lookup n dbv selfv key plat noneAllowed)"
  using assms unfolding lookup_refined_def by blast

lemma substitute_refinedD:
  assumes "substitute_refined h0 g dbv plat n"
    and "keeps h0 h" and "d < length h" and "fmrel (stands_for h0) (h ! d) dv"
  shows "agree h0 h (substitute_h n h g plat d item) (substitute n dbv plat dv item)"
  using assms unfolding substitute_refined_def by blast

text \<open>A nested call on a copy of \<open>d\<close>: \<open>Database(d).lookup(search, plat)\<close>.\<close>

lemma nested_refined:
  assumes lk: "lookup_refined h0 g dbv plat n"
    and h: "keeps h0 h" and d: "d < length h" and dv: "fmrel (stands_for h0) (h ! d) dv"
  shows "agree h0 h (lookup_h n (new_dict h (obj h d)) g (length h) key plat noneAllowed)
                    (lookup n dbv dv key plat noneAllowed)"
proof -
  have k: "keeps h0 (new_dict h (obj h d))"
    using h keeps_new by (rule keeps_trans)
  have l: "length h < length (new_dict h (obj h d))"
    by (simp add: new_dict_def)
  have c: "fmrel (stands_for h0) (new_dict h (obj h d) ! length h) dv"
    using d dv by (simp add: new_dict_def)
  from keeps_new lookup_refinedD[OF lk k l c] show ?thesis
    by (rule agree_later)
qed

text \<open>The item of a segment, resolved when it is a hash reference.\<close>

lemma resolve_refined:
  assumes lk: "lookup_refined h0 g dbv plat n"
    and h: "keeps h0 h" and d: "d < length h" and dv: "fmrel (stands_for h0) (h ! d) dv"
    and item: "stands_for h0 item1 item1v"
  shows "agree h0 h
           (if is_hash_ref_h item1
            then (case item1 of
                    OStr s \<Rightarrow>
                      lookup_h n (new_dict h (obj h d)) g (length h) (search_of s) plat False
                  | _ \<Rightarrow> Some (Inr item1, h))
            else Some (Inr item1, h))
           (if is_hash_ref item1v
            then (case item1v of VStr s \<Rightarrow> lookup n dbv dv (search_of s) plat False
                  | _ \<Rightarrow> Some (Inr item1v))
            else Some (Inr item1v))"
proof (cases "is_hash_ref_h item1")
  case True
  then obtain s where s: "item1 = OStr s"
    by (cases item1) (simp_all add: is_hash_ref_h_def)
  with item have sv: "item1v = VStr s" by simp
  from True item have hv: "is_hash_ref item1v"
    by (simp add: stands_for_hash)
  from nested_refined[OF lk h d dv] show ?thesis
    using True hv s sv by simp
next
  case False
  from False item have hv: "\<not> is_hash_ref item1v"
    by (simp add: stands_for_hash)
  from item h have "held h0 h item1 item1v" by (rule stands_for_held)
  with False hv show ?thesis by (simp add: agree_value keeps_refl)
qed

text \<open>The walk, from the nested calls of the same budget.\<close>

lemma walk_refined:
  assumes lk: "lookup_refined h0 g dbv plat n"
  shows "keeps h0 h \<Longrightarrow> length h0 \<le> d \<Longrightarrow> d < length h \<Longrightarrow> lvl < length h \<Longrightarrow>
         fmrel (stands_for h0) (h ! d) dv \<Longrightarrow> fmrel (stands_for h0) (h ! lvl) lvlv \<Longrightarrow>
         held h0 h item itemv \<Longrightarrow>
         agree_walk h0 h d (walk_h n h g plat d lvl item ks)
                           (walk n dbv plat dv lvlv itemv ks)"
proof (induction ks arbitrary: h dv lvl lvlv item itemv)
  case Nil
  then show ?case
    by (simp add: agree_walk_Some walked_def keeps_but_def)
next
  case (Cons k ks)
  note h = \<open>keeps h0 h\<close> and d0 = \<open>length h0 \<le> d\<close> and d = \<open>d < length h\<close>
    and lvl = \<open>lvl < length h\<close> and dv = \<open>fmrel (stands_for h0) (h ! d) dv\<close>
    and lvlv = \<open>fmrel (stands_for h0) (h ! lvl) lvlv\<close>
  define item1 where "item1 = level_item_h (obj h lvl) (obj h d) k"
  define item1v where "item1v = level_item lvlv dv k"
  have s1: "stands_for h0 item1 item1v"
    unfolding item1_def item1v_def using lvl d lvlv dv by (simp add: fmrel_level_item)
  show ?case
  proof (cases "item1 = ONone")
    case True
    with s1 have "item1v = VNone" by simp
    then have pure: "walk n dbv plat dv lvlv itemv (k # ks) = Some (Inr (dv, VNone))"
      by (simp add: walk.simps(2) item1v_def)
    from True have "walk_h n h g plat d lvl item (k # ks) = Some (Inr ONone, h)"
      by (simp add: walk_h.simps(2) item1_def)
    with pure dv show ?thesis
      by (simp add: agree_walk_Some walked_def keeps_but_def)
  next
    case False
    with s1 have nv: "item1v \<noteq> VNone" by auto
    define res where "res =
      (if is_hash_ref_h item1
       then (case item1 of
               OStr s \<Rightarrow> lookup_h n (new_dict h (obj h d)) g (length h) (search_of s) plat False
             | _ \<Rightarrow> Some (Inr item1, h))
       else Some (Inr item1, h))"
    define resv where "resv =
      (if is_hash_ref item1v
       then (case item1v of VStr s \<Rightarrow> lookup n dbv dv (search_of s) plat False
             | _ \<Rightarrow> Some (Inr item1v))
       else Some (Inr item1v))"
    have unfold: "walk_h n h g plat d lvl item (k # ks) =
      (case res of
         None \<Rightarrow> None
       | Some (Inl e, h') \<Rightarrow> Some (Inl e, h')
       | Some (Inr item2, h') \<Rightarrow>
           (case item2 of
              ORef a \<Rightarrow>
                walk_h n (assimilate_h (new_dict h' (obj h' a)) d (length h')) g plat
                  d (length h') (ORef (length h')) ks
            | _ \<Rightarrow> walk_h n h' g plat d lvl item2 ks))"
      using False unfolding res_def item1_def by (simp add: walk_h.simps(2) Let_def)
    have unfoldv: "walk n dbv plat dv lvlv itemv (k # ks) =
      (case resv of
         None \<Rightarrow> None
       | Some (Inl e) \<Rightarrow> Some (Inl e)
       | Some (Inr item2) \<Rightarrow>
           (case item2 of
              VDict m \<Rightarrow> walk n dbv plat (assimilate dv m) m item2 ks
            | _ \<Rightarrow> walk n dbv plat dv lvlv item2 ks))"
      using nv unfolding resv_def item1v_def by (simp add: walk.simps(2) Let_def)
    have ag: "agree h0 h res resv"
      unfolding res_def resv_def using lk h d dv s1 by (rule resolve_refined)
    show ?thesis
    proof (cases res)
      case None
      with ag have "resv = None" by simp
      with None unfold unfoldv show ?thesis by simp
    next
      case (Some p)
      then obtain r1 h1 where res: "res = Some (r1, h1)" by (cases p) simp
      from ag[unfolded res agree_Some]
      obtain rp1 where k1: "keeps h h1" and resv: "resv = Some rp1"
        and rel: "rel_sum (=) (held h0 h1) r1 rp1"
        by blast
      have h1: "keeps h0 h1" using h k1 by (rule keeps_trans)
      have len: "length h \<le> length h1" using k1 by (simp add: keeps_def)
      have d1: "d < length h1" using d len by simp
      have l1: "lvl < length h1" using lvl len by simp
      have hd: "h1 ! d = h ! d" using k1 d by (simp add: keeps_def)
      have hl: "h1 ! lvl = h ! lvl" using k1 lvl by (simp add: keeps_def)
      show ?thesis
      proof (cases r1)
        case (Inl e)
        with rel have "rp1 = Inl e" by (cases rp1) simp_all
        with resv unfoldv have "walk n dbv plat dv lvlv itemv (k # ks) = Some (Inl e)" by simp
        moreover from unfold res Inl
        have "walk_h n h g plat d lvl item (k # ks) = Some (Inl e, h1)" by simp
        ultimately show ?thesis
          using k1 by (simp add: agree_walk_Some walked_def keeps_keeps_but)
      next
        case (Inr item2)
        with rel obtain item2v where rp1: "rp1 = Inr item2v"
          and held2: "held h0 h1 item2 item2v"
          by (cases rp1) simp_all
        show ?thesis
        proof (cases "\<exists>a. item2 = ORef a")
          case True
          then obtain a where a: "item2 = ORef a" by blast
          with held2 obtain m where al: "a < length h1" and m: "item2v = VDict m"
            and am: "fmrel (stands_for h0) (h1 ! a) m"
            by (auto simp: held_def)
          define h2 where "h2 = assimilate_h (new_dict h1 (obj h1 a)) d (length h1)"
          have h2eq: "h2 = (h1 @ [h1 ! a])[d := (h1 ! d) ++\<^sub>f (h1 ! a)]"
            using al d1 by (simp add: h2_def assimilate_h_def new_dict_def obj_def nth_append)
          have kb: "keeps_but d h1 h2"
            by (auto simp: h2eq keeps_but_def nth_append)
          have h02: "keeps h0 h2"
            using kb d0 h1 by (rule keeps_but_keeps)
          have d2: "d < length h2" using d1 by (simp add: h2eq)
          have l2: "length h1 < length h2" by (simp add: h2eq)
          have c2: "h2 ! d = (h1 ! d) ++\<^sub>f (h1 ! a)"
            using d1 by (simp add: h2eq)
          have n2: "h2 ! length h1 = h1 ! a"
            using d1 by (simp add: h2eq)
          have dv2: "fmrel (stands_for h0) (h2 ! d) (assimilate dv m)"
            using dv am by (simp add: c2 hd assimilate_def fmrel_add)
          have lv2: "fmrel (stands_for h0) (h2 ! length h1) m"
            using am by (simp add: n2)
          have it2: "held h0 h2 (ORef (length h1)) (VDict m)"
            using l2 lv2 by (simp add: held_def)
          from unfold res Inr a
          have c: "walk_h n h g plat d lvl item (k # ks)
                     = walk_h n h2 g plat d (length h1) (ORef (length h1)) ks"
            by (simp add: h2_def)
          have cv: "walk n dbv plat dv lvlv itemv (k # ks)
                      = walk n dbv plat (assimilate dv m) m (VDict m) ks"
            using unfoldv resv rp1 m by simp
          have "keeps_but d h h2"
            using keeps_keeps_but[OF k1] kb by (rule keeps_but_trans)
          from this Cons.IH[OF h02 d0 d2 l2 dv2 lv2 it2]
          show ?thesis unfolding c cv by (rule agree_walk_later)
        next
          case False
          with held2 have nd: "\<And>m. item2v \<noteq> VDict m"
            by (cases item2) (auto simp: held_def)
          from unfold res Inr False
          have c: "walk_h n h g plat d lvl item (k # ks) = walk_h n h1 g plat d lvl item2 ks"
            by (cases item2) simp_all
          have cv: "walk n dbv plat dv lvlv itemv (k # ks) = walk n dbv plat dv lvlv item2v ks"
            using unfoldv resv rp1 nd by (cases item2v) auto
          have dv1: "fmrel (stands_for h0) (h1 ! d) dv" using dv by (simp add: hd)
          have lv1: "fmrel (stands_for h0) (h1 ! lvl) lvlv" using lvlv by (simp add: hl)
          from keeps_keeps_but[OF k1] Cons.IH[OF h1 d0 d1 l1 dv1 lv1 held2]
          show ?thesis unfolding c cv by (rule agree_walk_later)
        qed
      qed
    qed
  qed
qed

text \<open>The substitution loop, from the nested calls and the loop of the budget below.\<close>

lemma substitute_refined_Suc:
  assumes lk: "lookup_refined h0 g dbv plat n"
    and sb: "substitute_refined h0 g dbv plat n"
    and g: "g < length h0" and gv: "fmrel (stands_for h0) (h0 ! g) dbv"
  shows "substitute_refined h0 g dbv plat (Suc n)"
  unfolding substitute_refined_def
proof (intro allI impI)
  fix h d dv item
  assume h: "keeps h0 h" and d: "d < length h" and dv: "fmrel (stands_for h0) (h ! d) dv"
  let ?goal = "agree h0 h (substitute_h (Suc n) h g plat d item)
                          (substitute (Suc n) dbv plat dv item)"
  have tail: "agree h0 h (substitute_h n hx g plat d item') (substitute n dbv plat dv item')"
    if kx: "keeps h hx" for hx item'
  proof -
    have k0: "keeps h0 hx" using h kx by (rule keeps_trans)
    have dx: "d < length hx" using kx d by (simp add: keeps_def)
    have "hx ! d = h ! d" using kx d by (simp add: keeps_def)
    with dv have dvx: "fmrel (stands_for h0) (hx ! d) dv" by simp
    from kx substitute_refinedD[OF sb k0 dx dvx] show ?thesis
      by (rule agree_later)
  qed
  show ?goal
  proof (cases "CHR ''{'' \<in> set item")
    case False
    then show ?thesis
      by (simp add: substitute_h.simps(2) substitute.simps(2) agree_value keeps_refl)
  next
    case True
    define res where
      "res = lookup_h n (new_dict h (obj h d)) g (length h) (search_of item) plat False"
    have unfold: "substitute_h (Suc n) h g plat d item =
      (case res of
         None \<Rightarrow> None
       | Some (Inl e, h') \<Rightarrow> Some (Inl e, h')
       | Some (Inr (OStr sub), h') \<Rightarrow>
           if replace item (replace_of item) sub = item
           then
             (case lookup_h n h' g g (search_of item) plat False of
                None \<Rightarrow> None
              | Some (Inl e, h'') \<Rightarrow> Some (Inl e, h'')
              | Some (Inr (OStr sub'), h'') \<Rightarrow>
                  if replace item (replace_of item) sub' = item
                  then Some (Inl NonTerminatingReference, h'')
                  else substitute_h n h'' g plat d (replace item (replace_of item) sub')
              | Some (Inr _, h'') \<Rightarrow> Some (Inl TypeError, h''))
           else substitute_h n h' g plat d (replace item (replace_of item) sub)
       | Some (Inr _, h') \<Rightarrow> Some (Inl TypeError, h'))"
      using True unfolding res_def by (simp add: substitute_h.simps(2))
    define resv where "resv = lookup n dbv dv (search_of item) plat False"
    have unfoldv: "substitute (Suc n) dbv plat dv item =
      (case resv of
         None \<Rightarrow> None
       | Some (Inl e) \<Rightarrow> Some (Inl e)
       | Some (Inr (VStr sub)) \<Rightarrow>
           if replace item (replace_of item) sub = item
           then
             (case lookup n dbv dbv (search_of item) plat False of
                None \<Rightarrow> None
              | Some (Inl e) \<Rightarrow> Some (Inl e)
              | Some (Inr (VStr sub')) \<Rightarrow>
                  if replace item (replace_of item) sub' = item
                  then Some (Inl NonTerminatingReference)
                  else substitute n dbv plat dv (replace item (replace_of item) sub')
              | Some (Inr _) \<Rightarrow> Some (Inl TypeError))
           else substitute n dbv plat dv (replace item (replace_of item) sub)
       | Some (Inr _) \<Rightarrow> Some (Inl TypeError))"
      using True unfolding resv_def by (simp add: substitute.simps(2))
    have ag: "agree h0 h res resv"
      unfolding res_def resv_def using lk h d dv by (rule nested_refined)
    show ?thesis
    proof (cases res)
      case None
      with ag have "resv = None" by simp
      with None unfold unfoldv show ?thesis by simp
    next
      case (Some p)
      then obtain r1 h1 where res: "res = Some (r1, h1)" by (cases p) simp
      from ag[unfolded res agree_Some]
      obtain rp1 where k1: "keeps h h1" and resv: "resv = Some rp1"
        and rel: "rel_sum (=) (held h0 h1) r1 rp1"
        by blast
      show ?thesis
      proof (cases r1)
        case (Inl e)
        with rel have "rp1 = Inl e" by (cases rp1) simp_all
        with resv unfoldv have "substitute (Suc n) dbv plat dv item = Some (Inl e)" by simp
        moreover from unfold res Inl
        have "substitute_h (Suc n) h g plat d item = Some (Inl e, h1)" by simp
        ultimately show ?thesis using k1 by (simp add: agree_error)
      next
        case (Inr v)
        with rel obtain vv where rp1: "rp1 = Inr vv" and heldv: "held h0 h1 v vv"
          by (cases rp1) simp_all
        show ?thesis
        proof (cases "\<exists>sub. v = OStr sub")
          case False
          with heldv have nv: "\<And>sub. vv \<noteq> VStr sub"
            by (cases v) (auto simp: held_def)
          from unfold res Inr False
          have "substitute_h (Suc n) h g plat d item = Some (Inl TypeError, h1)"
            by (cases v) simp_all
          moreover from unfoldv resv rp1 nv
          have "substitute (Suc n) dbv plat dv item = Some (Inl TypeError)"
            by (cases vv) auto
          ultimately show ?thesis using k1 by (simp add: agree_error)
        next
          case True
          then obtain sub where sub: "v = OStr sub" by blast
          with heldv have vv: "vv = VStr sub" by simp
          show ?thesis
          proof (cases "replace item (replace_of item) sub = item")
            case False
            from unfold res Inr sub False
            have c: "substitute_h (Suc n) h g plat d item
                       = substitute_h n h1 g plat d (replace item (replace_of item) sub)"
              by simp
            from unfoldv resv rp1 vv False
            have cv: "substitute (Suc n) dbv plat dv item =
                    substitute n dbv plat dv (replace item (replace_of item) sub)"
              by simp
            from tail[OF k1] show ?thesis unfolding c cv .
          next
            case stall: True
            define res2 where "res2 = lookup_h n h1 g g (search_of item) plat False"
            define res2v where "res2v = lookup n dbv dbv (search_of item) plat False"
            have heap2: "substitute_h (Suc n) h g plat d item =
               (case res2 of
                  None \<Rightarrow> None
                | Some (Inl e, h'') \<Rightarrow> Some (Inl e, h'')
                | Some (Inr (OStr sub'), h'') \<Rightarrow>
                    if replace item (replace_of item) sub' = item
                    then Some (Inl NonTerminatingReference, h'')
                    else substitute_h n h'' g plat d (replace item (replace_of item) sub')
                | Some (Inr _, h'') \<Rightarrow> Some (Inl TypeError, h''))"
              using unfold res Inr sub stall unfolding res2_def by simp
            have pure2: "substitute (Suc n) dbv plat dv item =
               (case res2v of
                  None \<Rightarrow> None
                | Some (Inl e) \<Rightarrow> Some (Inl e)
                | Some (Inr (VStr sub')) \<Rightarrow>
                    if replace item (replace_of item) sub' = item
                    then Some (Inl NonTerminatingReference)
                    else substitute n dbv plat dv (replace item (replace_of item) sub')
                | Some (Inr _) \<Rightarrow> Some (Inl TypeError))"
              using unfoldv resv rp1 vv stall unfolding res2v_def by simp
            have k01: "keeps h0 h1" using h k1 by (rule keeps_trans)
            have g1: "g < length h1" using k01 g by (simp add: keeps_def)
            have "h1 ! g = h0 ! g" using k01 g by (simp add: keeps_def)
            with gv have gv1: "fmrel (stands_for h0) (h1 ! g) dbv" by simp
            have ag2: "agree h0 h1 res2 res2v"
              unfolding res2_def res2v_def using lk k01 g1 gv1 by (rule lookup_refinedD)
            show ?thesis
            proof (cases res2)
              case None
              with ag2 have "res2v = None" by simp
              with None heap2 pure2 show ?thesis by simp
            next
              case (Some q)
              then obtain r2 h2 where res2: "res2 = Some (r2, h2)" by (cases q) simp
              from ag2[unfolded res2 agree_Some]
              obtain rp2 where k12: "keeps h1 h2" and res2v: "res2v = Some rp2"
                and rel2: "rel_sum (=) (held h0 h2) r2 rp2"
                by blast
              have k2: "keeps h h2" using k1 k12 by (rule keeps_trans)
              show ?thesis
              proof (cases r2)
                case (Inl e)
                with rel2 have "rp2 = Inl e" by (cases rp2) simp_all
                with res2v pure2
                have "substitute (Suc n) dbv plat dv item = Some (Inl e)" by simp
                moreover from heap2 res2 Inl
                have "substitute_h (Suc n) h g plat d item = Some (Inl e, h2)" by simp
                ultimately show ?thesis using k2 by (simp add: agree_error)
              next
                case (Inr w)
                with rel2 obtain wv where rp2: "rp2 = Inr wv" and heldw: "held h0 h2 w wv"
                  by (cases rp2) simp_all
                show ?thesis
                proof (cases "\<exists>sub'. w = OStr sub'")
                  case False
                  with heldw have nw: "\<And>sub'. wv \<noteq> VStr sub'"
                    by (cases w) (auto simp: held_def)
                  from heap2 res2 Inr False
                  have "substitute_h (Suc n) h g plat d item = Some (Inl TypeError, h2)"
                    by (cases w) simp_all
                  moreover from pure2 res2v rp2 nw
                  have "substitute (Suc n) dbv plat dv item = Some (Inl TypeError)"
                    by (cases wv) auto
                  ultimately show ?thesis using k2 by (simp add: agree_error)
                next
                  case True
                  then obtain sub' where sub': "w = OStr sub'" by blast
                  with heldw have wv: "wv = VStr sub'" by simp
                  show ?thesis
                  proof (cases "replace item (replace_of item) sub' = item")
                    case True
                    with heap2 res2 Inr sub'
                    have "substitute_h (Suc n) h g plat d item
                            = Some (Inl NonTerminatingReference, h2)"
                      by simp
                    moreover from pure2 res2v rp2 wv True
                    have "substitute (Suc n) dbv plat dv item
                            = Some (Inl NonTerminatingReference)"
                      by simp
                    ultimately show ?thesis using k2 by (simp add: agree_error)
                  next
                    case False
                    with heap2 res2 Inr sub'
                    have c: "substitute_h (Suc n) h g plat d item
                               = substitute_h n h2 g plat d (replace item (replace_of item) sub')"
                      by simp
                    from pure2 res2v rp2 wv False
                    have cv: "substitute (Suc n) dbv plat dv item =
                            substitute n dbv plat dv (replace item (replace_of item) sub')"
                      by simp
                    from tail[OF k2] show ?thesis unfolding c cv .
                  qed
                qed
              qed
            qed
          qed
        qed
      qed
    qed
  qed
qed

text \<open>A call, from the walk and the substitution loop of the budget below.\<close>

lemma lookup_refined_Suc:
  assumes lk: "lookup_refined h0 g dbv plat n"
    and sb: "substitute_refined h0 g dbv plat n"
  shows "lookup_refined h0 g dbv plat (Suc n)"
  unfolding lookup_refined_def
proof (intro allI impI)
  fix h self selfv key noneAllowed
  assume h: "keeps h0 h" and self: "self < length h"
    and selfv: "fmrel (stands_for h0) (h ! self) selfv"
  let ?heap = "lookup_h (Suc n) h g self key plat noneAllowed"
  let ?pure = "lookup (Suc n) dbv selfv key plat noneAllowed"
  show "agree h0 h ?heap ?pure"
  proof (cases "subPlat plat key")
    case (Inl e)
    then show ?thesis
      by (simp add: lookup_h.simps(2) lookup.simps(2) agree_error keeps_refl)
  next
    case (Inr key')
    define d where "d = length h"
    define h1 where "h1 = assimilate_h (new_dict h fmempty) d self"
    have h1eq: "h1 = h @ [h ! self]"
      using self by (simp add: h1_def d_def assimilate_h_def new_dict_def obj_def nth_append)
    define res where "res = walk_h n h1 g plat d d ONone (split_dot key')"
    define resv where "resv = walk n dbv plat selfv selfv VNone (split_dot key')"
    have unfold: "?heap =
      (case res of
         None \<Rightarrow> None
       | Some (Inl e, h') \<Rightarrow> Some (Inl e, h')
       | Some (Inr item, h') \<Rightarrow>
           (case item of
              OStr s \<Rightarrow>
                if ''{'' @ key @ ''}'' = s then Some (Inl SelfReference, h')
                else if s = ''null'' then finish_h noneAllowed ONone h'
                else if s = ''true'' then finish_h noneAllowed (OBool True) h'
                else
                  (case subPlat plat s of
                     Inl e \<Rightarrow> Some (Inl e, h')
                   | Inr s' \<Rightarrow>
                       if count_list s' CHR ''{'' \<noteq> count_list s' CHR ''}''
                       then Some (Inl MalformedReference, h')
                       else
                         (case substitute_h n h' g plat d s' of
                            None \<Rightarrow> None
                          | Some (Inl e, h'') \<Rightarrow> Some (Inl e, h'')
                          | Some (Inr v, h'') \<Rightarrow> finish_h noneAllowed v h''))
            | _ \<Rightarrow> finish_h noneAllowed item h'))"
      using Inr unfolding res_def h1_def d_def by (simp add: lookup_h.simps(2))
    have unfoldv: "?pure =
      (case resv of
         None \<Rightarrow> None
       | Some (Inl e) \<Rightarrow> Some (Inl e)
       | Some (Inr (dv, item)) \<Rightarrow>
           (case item of
              VStr s \<Rightarrow>
                if ''{'' @ key @ ''}'' = s then Some (Inl SelfReference)
                else if s = ''null'' then finish noneAllowed VNone
                else if s = ''true'' then finish noneAllowed (VBool True)
                else
                  (case subPlat plat s of
                     Inl e \<Rightarrow> Some (Inl e)
                   | Inr s' \<Rightarrow>
                       if count_list s' CHR ''{'' \<noteq> count_list s' CHR ''}''
                       then Some (Inl MalformedReference)
                       else
                         (case substitute n dbv plat dv s' of
                            None \<Rightarrow> None
                          | Some (Inl e) \<Rightarrow> Some (Inl e)
                          | Some (Inr v) \<Rightarrow> finish noneAllowed v))
            | _ \<Rightarrow> finish noneAllowed item))"
      using Inr unfolding resv_def by (simp add: lookup.simps(2) assimilate_def)
    have k1: "keeps h h1" by (simp add: h1eq keeps_def nth_append)
    have k01: "keeps h0 h1" using h k1 by (rule keeps_trans)
    have d0: "length h0 \<le> d" using h by (simp add: d_def keeps_def)
    have d1: "d < length h1" by (simp add: h1eq d_def)
    have dv1: "fmrel (stands_for h0) (h1 ! d) selfv"
      using selfv by (simp add: h1eq d_def)
    have none: "held h0 h1 ONone VNone" by simp
    have ag: "agree_walk h0 h1 d res resv"
      unfolding res_def resv_def using lk k01 d0 d1 d1 dv1 dv1 none by (rule walk_refined)
    show ?thesis
    proof (cases res)
      case None
      with ag have "resv = None" by simp
      with None unfold unfoldv show ?thesis by simp
    next
      case (Some p)
      then obtain r1 h2 where res: "res = Some (r1, h2)" by (cases p) simp
      from ag[unfolded res agree_walk_Some]
      obtain rp1 where kb: "keeps_but d h1 h2" and resv: "resv = Some rp1"
        and wd: "walked h0 h2 d r1 rp1"
        by blast
      have k2: "keeps h h2"
        using kb by (auto simp: keeps_def keeps_but_def h1eq d_def nth_append)
      have k02: "keeps h0 h2" using h k2 by (rule keeps_trans)
      have d2: "d < length h2" using kb d1 by (simp add: keeps_but_def)
      show ?thesis
      proof (cases r1)
        case (Inl e)
        with wd have "rp1 = Inl e" by (simp add: walked_def)
        with resv unfoldv have "?pure = Some (Inl e)" by simp
        moreover from unfold res Inl have "?heap = Some (Inl e, h2)" by simp
        ultimately show ?thesis using k2 by (simp add: agree_error)
      next
        case (Inr item)
        with wd obtain dv itemv where rp1: "rp1 = Inr (dv, itemv)"
          and dv: "fmrel (stands_for h0) (h2 ! d) dv" and it: "held h0 h2 item itemv"
          by (auto simp: walked_def)
        show ?thesis
        proof (cases "\<exists>s. item = OStr s")
          case False
          with it have ns: "\<And>s. itemv \<noteq> VStr s"
            by (cases item) (auto simp: held_def)
          from unfold res Inr False
          have c: "?heap = finish_h noneAllowed item h2"
            by (cases item) simp_all
          from unfoldv resv rp1 ns
          have cv: "?pure = finish noneAllowed itemv"
            by (cases itemv) auto
          from k2 it show ?thesis unfolding c cv by (rule agree_finish)
        next
          case True
          then obtain s where s: "item = OStr s" by blast
          with it have sv: "itemv = VStr s" by simp
          note heap = unfold res Inr s
          note pure = unfoldv resv rp1 sv
          consider (selfref) "''{'' @ key @ ''}'' = s"
            | (null) "''{'' @ key @ ''}'' \<noteq> s" "s = ''null''"
            | (true) "''{'' @ key @ ''}'' \<noteq> s" "s \<noteq> ''null''" "s = ''true''"
            | (other) "''{'' @ key @ ''}'' \<noteq> s" "s \<noteq> ''null''" "s \<noteq> ''true''"
            by blast
          then show ?thesis
          proof cases
            case selfref
            with heap have "?heap = Some (Inl SelfReference, h2)" by simp
            moreover from pure selfref have "?pure = Some (Inl SelfReference)" by simp
            ultimately show ?thesis using k2 by (simp add: agree_error)
          next
            case null
            with heap have c: "?heap = finish_h noneAllowed ONone h2" by simp
            from pure null have cv: "?pure = finish noneAllowed VNone" by simp
            have "held h0 h2 ONone VNone" by simp
            with k2 show ?thesis unfolding c cv by (rule agree_finish)
          next
            case true
            with heap have c: "?heap = finish_h noneAllowed (OBool True) h2" by simp
            from pure true have cv: "?pure = finish noneAllowed (VBool True)" by simp
            have "held h0 h2 (OBool True) (VBool True)" by simp
            with k2 show ?thesis unfolding c cv by (rule agree_finish)
          next
            case other
            show ?thesis
            proof (cases "subPlat plat s")
              case (Inl e)
              with heap other have "?heap = Some (Inl e, h2)" by simp
              moreover from pure other Inl have "?pure = Some (Inl e)" by simp
              ultimately show ?thesis using k2 by (simp add: agree_error)
            next
              case (Inr s')
              note sub = Inr
              show ?thesis
              proof (cases "count_list s' CHR ''{'' = count_list s' CHR ''}''")
                case False
                with heap other sub have "?heap = Some (Inl MalformedReference, h2)" by simp
                moreover from pure other sub False
                have "?pure = Some (Inl MalformedReference)" by simp
                ultimately show ?thesis using k2 by (simp add: agree_error)
              next
                case True
                define res3 where "res3 = substitute_h n h2 g plat d s'"
                define res3v where "res3v = substitute n dbv plat dv s'"
                have heap3: "?heap =
                   (case res3 of
                      None \<Rightarrow> None
                    | Some (Inl e, h'') \<Rightarrow> Some (Inl e, h'')
                    | Some (Inr v, h'') \<Rightarrow> finish_h noneAllowed v h'')"
                  using heap other sub True unfolding res3_def by simp
                have pure3: "?pure =
                   (case res3v of
                      None \<Rightarrow> None
                    | Some (Inl e) \<Rightarrow> Some (Inl e)
                    | Some (Inr v) \<Rightarrow> finish noneAllowed v)"
                  using pure other sub True unfolding res3v_def by simp
                have ag3: "agree h0 h2 res3 res3v"
                  unfolding res3_def res3v_def using sb k02 d2 dv by (rule substitute_refinedD)
                show ?thesis
                proof (cases res3)
                  case None
                  with ag3 have "res3v = None" by simp
                  with None heap3 pure3 show ?thesis by simp
                next
                  case (Some q)
                  then obtain r3 h3 where res3: "res3 = Some (r3, h3)" by (cases q) simp
                  from ag3[unfolded res3 agree_Some]
                  obtain rp3 where k23: "keeps h2 h3" and res3v: "res3v = Some rp3"
                    and rel3: "rel_sum (=) (held h0 h3) r3 rp3"
                    by blast
                  have k3: "keeps h h3" using k2 k23 by (rule keeps_trans)
                  show ?thesis
                  proof (cases r3)
                    case (Inl e)
                    with rel3 have "rp3 = Inl e" by (cases rp3) simp_all
                    with res3v pure3 have "?pure = Some (Inl e)" by simp
                    moreover from heap3 res3 Inl have "?heap = Some (Inl e, h3)" by simp
                    ultimately show ?thesis using k3 by (simp add: agree_error)
                  next
                    case (Inr v)
                    with rel3 obtain vv where rp3: "rp3 = Inr vv" and hv: "held h0 h3 v vv"
                      by (cases rp3) simp_all
                    from heap3 res3 Inr have c: "?heap = finish_h noneAllowed v h3" by simp
                    from pure3 res3v rp3 have cv: "?pure = finish noneAllowed vv" by simp
                    from k3 hv show ?thesis unfolding c cv by (rule agree_finish)
                  qed
                qed
              qed
            qed
          qed
        qed
      qed
    qed
  qed
qed

text \<open>Every budget.\<close>

lemma refined:
  assumes g: "g < length h0" and gv: "fmrel (stands_for h0) (h0 ! g) dbv"
  shows "lookup_refined h0 g dbv plat n \<and> substitute_refined h0 g dbv plat n"
proof (induction n)
  case 0
  have "lookup_refined h0 g dbv plat 0"
    by (simp add: lookup_refined_def)
  moreover have "substitute_refined h0 g dbv plat 0"
    by (simp add: substitute_refined_def agree_value keeps_refl)
  ultimately show ?case ..
next
  case (Suc n)
  then have lk: "lookup_refined h0 g dbv plat n" and sb: "substitute_refined h0 g dbv plat n"
    by simp_all
  from lookup_refined_Suc[OF lk sb] substitute_refined_Suc[OF lk sb g gv]
  show ?case ..
qed

lemma lookup_h_agrees:
  assumes "g < length h0" and "fmrel (stands_for h0) (h0 ! g) dbv"
    and "keeps h0 h" and "self < length h" and "fmrel (stands_for h0) (h ! self) selfv"
  shows "agree h0 h (lookup_h n h g self key plat noneAllowed)
                    (lookup n dbv selfv key plat noneAllowed)"
  using refined[OF assms(1,2), THEN conjunct1] assms(3-5) by (rule lookup_refinedD)

section \<open>Determinism\<close>

lemma lookup_budget_independent:
  assumes "lookup n db self key plat noneAllowed = Some r"
    and "lookup m db self key plat noneAllowed = Some r'"
  shows "r = r'"
proof -
  have "lookup (max n m) db self key plat noneAllowed = Some r"
    by (rule lookup_fuel_mono[OF assms(1)]) simp
  moreover have "lookup (max n m) db self key plat noneAllowed = Some r'"
    by (rule lookup_fuel_mono[OF assms(2)]) simp
  ultimately show ?thesis by simp
qed

lemma people_heap_stands:
  "fmrel (stands_for people_heap) (people_heap ! 0) people_db"
proof -
  have e: "fmrel (stands_for people_heap) fmempty fmempty"
    by (simp add: fmrel_iff)
  have l: "length people_heap = 5"
    by (simp add: people_heap_def)
  have o: "people_heap ! 0 = fmap_of_list [(''root'', ORef 1)]"
    "people_heap ! Suc 0 = fmap_of_list [(''surname'', OStr ''Smith''), (''john'', ORef 2),
        (''jane'', ORef 3), (''alexa'', ORef 4)]"
    "people_heap ! 2 = fmempty" "people_heap ! 3 = fmempty"
    "people_heap ! 4 = fmap_of_list [(''surname'', OStr ''Smith-Doe'')]"
    by (simp_all add: people_heap_def)
  show ?thesis
    by (simp add: l o people_db_def e fmrel_upd)
qed

lemmas lookup_h_eval = lookup_h.simps(2) walk_h.simps(2) substitute_h.simps(2) subPlat_def
  assimilate_h_def new_dict_def obj_def level_item_h_def is_hash_ref_h_def startswith_hash_def
  finish_h_def Let_def

lemma people_first_call:
  "lookup_h (Suc 0) people_heap 0 0 ''root.alexa.surname'' None False
     = Some (Inr (OStr ''Smith-Doe''), people_heap_called)"
  by (simp add: lookup_h_eval people_heap_def people_heap_called_def)

lemma people_second_call:
  "lookup_h (Suc 0) people_heap_called 0 0 ''root.alexa.surname'' None False
     = Some (Inr (OStr ''Smith-Doe''), people_heap_called @ drop 5 people_heap_called)"
  by (simp add: lookup_h_eval people_heap_def people_heap_called_def)

text \<open>
  C9. A document is a heap \<open>h0\<close> of dict objects that form a finite tree, with the global
  database at \<open>g\<close> and the database the method is called on at \<open>self\<close> (for \<open>dblu\<close> the
  two are the same object). A call of \<open>lookup\<close> that returns leaves every object that
  existed as it was: the objects it writes are the ones it has created itself. Another call
  with the same arguments, run on the heap \<open>h\<close> that this call or any others have left
  behind, where the objects of the document are as they were, returns as well; and whatever
  budget it returns with, it leaves the objects of \<open>h\<close> as they were, and the two results
  are the same abort or stand for one and the same value, the one that the function
  \<open>lookup\<close> on values gives for the values that \<open>g\<close> and \<open>self\<close> stand for. A result that
  is no dict and no list is the same result.
\<close>

theorem lookup_repeated:
  assumes g: "g < length h0" and self: "self < length h0"
    and gv: "fmrel (stands_for h0) (h0 ! g) dbv"
    and selfv: "fmrel (stands_for h0) (h0 ! self) selfv"
    and first: "lookup_h n h0 g self key plat noneAllowed = Some (r, h1)"
  shows "keeps h0 h1 \<and>
         (\<forall>h. keeps h0 h \<longrightarrow>
            (\<exists>r' h2. lookup_h n h g self key plat noneAllowed = Some (r', h2)) \<and>
            (\<forall>m r' h2. lookup_h m h g self key plat noneAllowed = Some (r', h2) \<longrightarrow>
               keeps h h2 \<and>
               (\<exists>rp. lookup n dbv selfv key plat noneAllowed = Some rp \<and>
                     lookup m dbv selfv key plat noneAllowed = Some rp \<and>
                     rel_sum (=) (held h0 h1) r rp \<and> rel_sum (=) (held h0 h2) r' rp) \<and>
               ((\<forall>a. r \<noteq> Inr (ORef a)) \<and> (\<forall>xs. r \<noteq> Inr (OList xs)) \<longrightarrow> r' = r)))"
proof -
  from lookup_h_agrees[OF g gv keeps_refl self selfv, of n key plat noneAllowed] first
  obtain rp where k1: "keeps h0 h1"
    and p: "lookup n dbv selfv key plat noneAllowed = Some rp"
    and rel: "rel_sum (=) (held h0 h1) r rp"
    by (auto simp: agree_Some)
  have later: "(\<exists>r' h2. lookup_h n h g self key plat noneAllowed = Some (r', h2)) \<and>
      (\<forall>m r' h2. lookup_h m h g self key plat noneAllowed = Some (r', h2) \<longrightarrow>
         keeps h h2 \<and>
         (\<exists>rp. lookup n dbv selfv key plat noneAllowed = Some rp \<and>
               lookup m dbv selfv key plat noneAllowed = Some rp \<and>
               rel_sum (=) (held h0 h1) r rp \<and> rel_sum (=) (held h0 h2) r' rp) \<and>
         ((\<forall>a. r \<noteq> Inr (ORef a)) \<and> (\<forall>xs. r \<noteq> Inr (OList xs)) \<longrightarrow> r' = r))"
    if k: "keeps h0 h" for h
  proof -
    have selfh: "self < length h" using k self by (simp add: keeps_def)
    have "h ! self = h0 ! self" using k self by (simp add: keeps_def)
    with selfv have selfvh: "fmrel (stands_for h0) (h ! self) selfv" by simp
    have ag: "agree h0 h (lookup_h m h g self key plat noneAllowed)
                         (lookup m dbv selfv key plat noneAllowed)" for m
      using g gv k selfh selfvh by (rule lookup_h_agrees)
    have returns: "\<exists>r' h2. lookup_h n h g self key plat noneAllowed = Some (r', h2)"
    proof (cases "lookup_h n h g self key plat noneAllowed")
      case None
      with ag[of n] p show ?thesis by simp
    next
      case (Some q)
      then show ?thesis by (cases q) simp
    qed
    have second: "keeps h h2 \<and>
          (\<exists>rp. lookup n dbv selfv key plat noneAllowed = Some rp \<and>
                lookup m dbv selfv key plat noneAllowed = Some rp \<and>
                rel_sum (=) (held h0 h1) r rp \<and> rel_sum (=) (held h0 h2) r' rp) \<and>
          ((\<forall>a. r \<noteq> Inr (ORef a)) \<and> (\<forall>xs. r \<noteq> Inr (OList xs)) \<longrightarrow> r' = r)"
      if c: "lookup_h m h g self key plat noneAllowed = Some (r', h2)" for m r' h2
    proof -
      from ag[of m] c obtain rp' where k2: "keeps h h2"
        and p': "lookup m dbv selfv key plat noneAllowed = Some rp'"
        and rel': "rel_sum (=) (held h0 h2) r' rp'"
        by (auto simp: agree_Some)
      from p p' have eq: "rp' = rp" by (rule lookup_budget_independent[symmetric])
      have "r' = r" if "\<forall>a. r \<noteq> Inr (ORef a)" and "\<forall>xs. r \<noteq> Inr (OList xs)"
      proof (cases r)
        case (Inl e)
        with rel have "rp = Inl e" by (cases rp) simp_all
        with rel' eq have "r' = Inl e" by (cases r') simp_all
        with Inl show ?thesis by simp
      next
        case (Inr v)
        with rel obtain pv where rp: "rp = Inr pv" and hv: "held h0 h1 v pv"
          by (cases rp) simp_all
        with rel' eq obtain v' where r': "r' = Inr v'" and hv': "held h0 h2 v' pv"
          by (cases r') simp_all
        from that Inr have "\<forall>a. v \<noteq> ORef a" "\<forall>xs. v \<noteq> OList xs" by simp_all
        with hv hv' have "v' = v" by (rule held_scalar)
        with Inr r' show ?thesis by simp
      qed
      with k2 p p' rel rel' eq show ?thesis by blast
    qed
    from returns second show ?thesis by blast
  qed
  from k1 later show ?thesis by blast
qed

theorem lookup_repeated_witness:
  "lookup_h (Suc 0) people_heap 0 0 ''root.alexa.surname'' None False
     = Some (Inr (OStr ''Smith-Doe''), people_heap_called) \<and>
   keeps people_heap people_heap_called \<and>
   lookup_h (Suc 0) people_heap_called 0 0 ''root.alexa.surname'' None False
     = Some (Inr (OStr ''Smith-Doe''), people_heap_called @ drop 5 people_heap_called) \<and>
   keeps people_heap_called (people_heap_called @ drop 5 people_heap_called) \<and>
   lookup (Suc 0) people_db people_db ''root.alexa.surname'' None False
     = Some (Inr (VStr ''Smith-Doe''))"
proof -
  have l: "0 < length people_heap" by (simp add: people_heap_def)
  note first = people_first_call
  note second = people_second_call
  note rep = lookup_repeated[OF l l people_heap_stands people_heap_stands first]
  from rep have k: "keeps people_heap people_heap_called" by blast
  from rep k second
  have s: "keeps people_heap_called (people_heap_called @ drop 5 people_heap_called) \<and>
    (\<exists>rp. lookup (Suc 0) people_db people_db ''root.alexa.surname'' None False = Some rp \<and>
          lookup (Suc 0) people_db people_db ''root.alexa.surname'' None False = Some rp \<and>
          rel_sum (=) (held people_heap people_heap_called) (Inr (OStr ''Smith-Doe'')) rp \<and>
          rel_sum (=) (held people_heap (people_heap_called @ drop 5 people_heap_called))
            (Inr (OStr ''Smith-Doe'')) rp)"
    by blast
  then obtain rp
    where p: "lookup (Suc 0) people_db people_db ''root.alexa.surname'' None False = Some rp"
      and rel: "rel_sum (=) (held people_heap people_heap_called) (Inr (OStr ''Smith-Doe'')) rp"
    by blast
  from rel have "rp = Inr (VStr ''Smith-Doe'')" by (cases rp) simp_all
  with p first second k s show ?thesis by blast
qed

section \<open>Reserved literals\<close>

text \<open>
  C7, as the code has it. When the walk ends on the string \<open>null\<close>, \<open>lookup\<close> returns \<open>None\<close>
  if \<open>noneAllowed\<close> is true and aborts with \<open>NotFound\<close> if it is false; when it ends on the
  string \<open>true\<close>, \<open>lookup\<close> returns \<open>True\<close>. Only these two strings are decoded: a call that
  ends on a string and returns \<open>None\<close> ended on \<open>null\<close>, and one that returns a boolean
  ended on \<open>true\<close>.
\<close>

theorem reserved_literals:
  assumes "subPlat plat key = Inr key'"
    and "walk n db plat self self VNone (split_dot key') = Some (Inr (d, VStr s))"
  shows "(s = ''null'' \<longrightarrow>
            lookup (Suc n) db self key plat True = Some (Inr VNone) \<and>
            lookup (Suc n) db self key plat False = Some (Inl NotFound)) \<and>
         (s = ''true'' \<longrightarrow> lookup (Suc n) db self key plat noneAllowed = Some (Inr (VBool True))) \<and>
         (lookup (Suc n) db self key plat noneAllowed = Some (Inr VNone) \<longrightarrow> s = ''null'') \<and>
         (lookup (Suc n) db self key plat noneAllowed = Some (Inr (VBool b)) \<longrightarrow> s = ''true'' \<and> b)"
proof -
  have plain: "\<not> (s \<noteq> ''null'' \<and> s \<noteq> ''true'' \<and>
             (lookup (Suc n) db self key plat noneAllowed = Some (Inr VNone) \<or>
              lookup (Suc n) db self key plat noneAllowed = Some (Inr (VBool b))))"
    by (auto simp: lookup_walked[OF assms] finish_def
          split: if_splits sum.splits option.splits dest: substitute_string)
  have null: "s = ''null'' \<Longrightarrow> lookup (Suc n) db self key plat na =
      (if na then Some (Inr VNone) else Some (Inl NotFound))" for na
    by (simp add: lookup_walked[OF assms] finish_def)
  have true: "s = ''true'' \<Longrightarrow> lookup (Suc n) db self key plat na = Some (Inr (VBool True))" for na
    by (simp add: lookup_walked[OF assms] finish_def)
  from plain null[of True] null[of False] null[of noneAllowed] true[of noneAllowed]
  show ?thesis by (auto split: if_splits)
qed

theorem reserved_literals_witness:
  "lookup (Suc 0) literal_db literal_db ''k'' None True = Some (Inr VNone) \<and>
   lookup (Suc 0) literal_db literal_db ''k'' None False = Some (Inl NotFound) \<and>
   lookup (Suc 0) literal_db literal_db ''t'' None False = Some (Inr (VBool True))"
proof -
  have k: "subPlat None ''k'' = Inr ''k''" and t: "subPlat None ''t'' = Inr ''t''"
    by (simp_all add: subPlat_def)
  note null = reserved_literals[OF k literal_walk_null, where noneAllowed = False and b = True]
  note true = reserved_literals[OF t literal_walk_true, where noneAllowed = False and b = True]
  from null true show ?thesis by blast
qed

text \<open>
  C7 as stated fails for the default \<open>noneAllowed=False\<close>: the key holds exactly \<open>null\<close> and
  the call aborts instead of returning \<open>None\<close>.
\<close>

theorem reserved_literals_counterexample:
  "fmlookup literal_db ''k'' = Some (VStr ''null'') \<and>
   lookup 1 literal_db literal_db ''k'' None False = Some (Inl NotFound)"
  by (simp add: literal_db_def lookup_eval)

section \<open>Brace counts\<close>

text \<open>
  C6, as the code has it. \<open>lookup\<close> compares the number of opening and closing braces once:
  on the string the walk ended on, after \<open>subPlat\<close> and before any cross-reference is
  resolved. When they differ it aborts with \<open>MalformedReference\<close>, whatever \<open>noneAllowed\<close>.
\<close>

theorem brace_count_checked:
  assumes "subPlat plat key = Inr key'"
    and "walk n db plat self self VNone (split_dot key') = Some (Inr (d, VStr s))"
    and "''{'' @ key @ ''}'' \<noteq> s" "s \<noteq> ''null''" "s \<noteq> ''true''"
    and "subPlat plat s = Inr s'"
    and "count_list s' CHR ''{'' \<noteq> count_list s' CHR ''}''"
  shows "lookup (Suc n) db self key plat noneAllowed = Some (Inl MalformedReference)"
  using assms(3-) by (simp add: lookup_walked[OF assms(1,2)])

theorem brace_count_checked_witness:
  "lookup (Suc 0) brace_db brace_db ''odd'' None True = Some (Inl MalformedReference) \<and>
   lookup (Suc 0) brace_db brace_db ''odd'' None False = Some (Inl MalformedReference)"
proof -
  have k: "subPlat None ''odd'' = Inr ''odd''" and s: "subPlat None ''a{b'' = Inr ''a{b''"
    by (simp_all add: subPlat_def)
  have g: "''{'' @ ''odd'' @ ''}'' \<noteq> ''a{b''" "''a{b'' \<noteq> ''null''" "''a{b'' \<noteq> ''true''"
    "count_list ''a{b'' CHR ''{'' \<noteq> count_list ''a{b'' CHR ''}''"
    by simp_all
  from brace_count_checked[OF k brace_walk_odd g(1-3) s g(4), of True]
    brace_count_checked[OF k brace_walk_odd g(1-3) s g(4), of False]
  show ?thesis by blast
qed

text \<open>
  C6 as stated fails on both sides of the test. After the cross-references are resolved
  nothing is counted: \<open>{a{b}}\<close> resolves the key \<open>a{b\<close> and returns \<open>v}\<close>. Before \<open>subPlat\<close>
  nothing is counted either: \<open>{a@\<close> with the platform \<open>}\<close> returns \<open>x\<close>.
\<close>

theorem brace_count_counterexample:
  "lookup 3 brace_db brace_db ''k'' None False = Some (Inr (VStr ''v}'')) \<and>
   count_list ''v}'' CHR ''{'' \<noteq> count_list ''v}'' CHR ''}'' \<and>
   lookup 3 at_db at_db ''k'' (Some ''}'') False = Some (Inr (VStr ''x'')) \<and>
   fmlookup at_db ''k'' = Some (VStr ''{a@'') \<and>
   count_list ''{a@'' CHR ''{'' \<noteq> count_list ''{a@'' CHR ''}''"
  by (simp add: numeral_3_eq_3 brace_db_def at_db_def lookup_eval substitute_plain)

section \<open>Nested lookups never allow None\<close>

text \<open>
  C10, as the code has it. The three nested calls of \<open>lookup\<close> pass \<open>noneAllowed=False\<close>:
  for a cross-reference in the assimilated keys, for the retry in the root database, and
  for a hash reference met by the walk. So when the reference being resolved leads to a
  missing key or to the string \<open>null\<close>, the loop aborts with \<open>NotFound\<close>, in whichever pass
  that reference is the first of the string, and so does the retry and so does the walk.
  An abort of a later pass is the abort of the passes before it, and an abort of the loop
  or of the walk is the result of the call with \<open>noneAllowed=True\<close>. A reference resolved
  before may abort the call otherwise first.
\<close>

theorem nested_lookup_not_found:
  "(CHR ''{'' \<in> set item \<and> subPlat plat (search_of item) = Inr rkey \<and>
    walk n db plat d d VNone (split_dot rkey) = Some (Inr (rd, ritem)) \<and>
    (ritem = VNone \<or> ritem = VStr ''null'')
      \<longrightarrow> substitute (Suc (Suc n)) db plat d item = Some (Inl NotFound)) \<and>
   (CHR ''{'' \<in> set item \<and>
    lookup (Suc n) db d (search_of item) plat False = Some (Inr (VStr sub)) \<and>
    replace item (replace_of item) sub = item \<and>
    subPlat plat (search_of item) = Inr rkey \<and>
    walk n db plat db db VNone (split_dot rkey) = Some (Inr (rd, ritem)) \<and>
    (ritem = VNone \<or> ritem = VStr ''null'')
      \<longrightarrow> substitute (Suc (Suc n)) db plat d item = Some (Inl NotFound)) \<and>
   (CHR ''{'' \<in> set item \<and>
    lookup m db d (search_of item) plat False = Some (Inr (VStr sub)) \<and>
    replace item (replace_of item) sub \<noteq> item \<and>
    substitute m db plat d (replace item (replace_of item) sub) = Some (Inl e)
      \<longrightarrow> substitute (Suc m) db plat d item = Some (Inl e)) \<and>
   (level_item lookupLvl d k = VStr h \<and> is_hash_ref (VStr h) \<and>
    subPlat plat (search_of h) = Inr rkey \<and>
    walk n db plat d d VNone (split_dot rkey) = Some (Inr (rd, ritem)) \<and>
    (ritem = VNone \<or> ritem = VStr ''null'')
      \<longrightarrow> walk (Suc n) db plat d lookupLvl cur (k # ks) = Some (Inl NotFound)) \<and>
   (subPlat plat key = Inr key' \<and>
    walk m db plat self self VNone (split_dot key') = Some (Inl e)
      \<longrightarrow> lookup (Suc m) db self key plat True = Some (Inl e)) \<and>
   (subPlat plat key = Inr key' \<and>
    walk m db plat self self VNone (split_dot key') = Some (Inr (d, VStr s)) \<and>
    ''{'' @ key @ ''}'' \<noteq> s \<and> s \<noteq> ''null'' \<and> s \<noteq> ''true'' \<and>
    subPlat plat s = Inr s' \<and> count_list s' CHR ''{'' = count_list s' CHR ''}'' \<and>
    substitute m db plat d s' = Some (Inl e)
      \<longrightarrow> lookup (Suc m) db self key plat True = Some (Inl e))"
proof -
  have nested: "lookup (Suc n) db a (search_of i) plat False = Some (Inl NotFound)"
    if "subPlat plat (search_of i) = Inr rkey"
      "walk n db plat a a VNone (split_dot rkey) = Some (Inr (rd, ritem))"
      "ritem = VNone \<or> ritem = VStr ''null''"
    for a i
    using that by (rule lookup_not_found_nested)
  have first: "substitute (Suc (Suc n)) db plat d item = Some (Inl NotFound)"
    if "CHR ''{'' \<in> set item" "subPlat plat (search_of item) = Inr rkey"
      "walk n db plat d d VNone (split_dot rkey) = Some (Inr (rd, ritem))"
      "ritem = VNone \<or> ritem = VStr ''null''"
    using nested[OF that(2-4)] by (simp add: substitute_unfold[OF that(1)])
  have retry: "substitute (Suc (Suc n)) db plat d item = Some (Inl NotFound)"
    if "CHR ''{'' \<in> set item"
      "lookup (Suc n) db d (search_of item) plat False = Some (Inr (VStr sub))"
      "replace item (replace_of item) sub = item"
      "subPlat plat (search_of item) = Inr rkey"
      "walk n db plat db db VNone (split_dot rkey) = Some (Inr (rd, ritem))"
      "ritem = VNone \<or> ritem = VStr ''null''"
    using nested[OF that(4-6)] that(2,3) by (simp add: substitute_unfold[OF that(1)])
  have pass: "substitute (Suc m) db plat d item = Some (Inl e)"
    if "CHR ''{'' \<in> set item"
      "lookup m db d (search_of item) plat False = Some (Inr (VStr sub))"
      "replace item (replace_of item) sub \<noteq> item"
      "substitute m db plat d (replace item (replace_of item) sub) = Some (Inl e)"
    using that(2-4) by (simp add: substitute_unfold[OF that(1)])
  have hash: "walk (Suc n) db plat d lookupLvl cur (k # ks) = Some (Inl NotFound)"
    if "level_item lookupLvl d k = VStr h" "is_hash_ref (VStr h)"
      "subPlat plat (search_of h) = Inr rkey"
      "walk n db plat d d VNone (split_dot rkey) = Some (Inr (rd, ritem))"
      "ritem = VNone \<or> ritem = VStr ''null''"
    using walk_hash_error[OF that(1,2) nested[OF that(3-5)]] .
  have walked: "lookup (Suc m) db self key plat True = Some (Inl e)"
    if "subPlat plat key = Inr key'"
      "walk m db plat self self VNone (split_dot key') = Some (Inl e)"
    using that by (rule lookup_walk_error)
  have looped: "lookup (Suc m) db self key plat True = Some (Inl e)"
    if "subPlat plat key = Inr key'"
      "walk m db plat self self VNone (split_dot key') = Some (Inr (d, VStr s))"
      "''{'' @ key @ ''}'' \<noteq> s" "s \<noteq> ''null''" "s \<noteq> ''true''"
      "subPlat plat s = Inr s'" "count_list s' CHR ''{'' = count_list s' CHR ''}''"
      "substitute m db plat d s' = Some (Inl e)"
    using that(8) by (simp add: lookup_walked_substitute[OF that(1-7)])
  from first retry pass hash walked looped show ?thesis by blast
qed

theorem nested_lookup_not_found_witness:
  "lookup (Suc (Suc (Suc 0))) missing_db missing_db ''u'' None True = Some (Inl NotFound) \<and>
   lookup (Suc (Suc (Suc 0))) missing_db missing_db ''v'' None True = Some (Inl NotFound) \<and>
   lookup (Suc (Suc (Suc (Suc 0)))) later_db later_db ''w'' None True = Some (Inl NotFound) \<and>
   lookup (Suc (Suc (Suc 0))) rootless_db rootless_db ''m.k'' None True = Some (Inl NotFound) \<and>
   lookup (Suc (Suc 0)) missing_db missing_db ''h'' None True = Some (Inl NotFound)"
proof -
  let ?d = "assimilate rootless_db (fmap_of_list [([], VStr []), (''k'', VStr ''}{'')])"
  have p: "subPlat None ''gone'' = Inr ''gone''" "subPlat None ''nil'' = Inr ''nil''"
    "subPlat None ''u'' = Inr ''u''" "subPlat None ''v'' = Inr ''v''"
    "subPlat None ''h'' = Inr ''h''" "subPlat None ''w'' = Inr ''w''"
    "subPlat None ''m.k'' = Inr ''m.k''" "subPlat None [] = Inr []"
    "subPlat None ''x{gone}'' = Inr ''x{gone}''" "subPlat None ''y{nil}'' = Inr ''y{nil}''"
    "subPlat None ''{ok}{gone}'' = Inr ''{ok}{gone}''" "subPlat None ''}{'' = Inr ''}{''"
    by (simp_all add: subPlat_def)
  have s: "search_of ''x{gone}'' = ''gone''" "search_of ''y{nil}'' = ''nil''"
    "search_of ''#{gone}'' = ''gone''" "search_of ''fine{gone}'' = ''gone''"
    "search_of ''}{'' = []"
    by (simp_all add: search_of_def slice_def slice_bound_def)
  have b: "CHR ''{'' \<in> set ''x{gone}''" "CHR ''{'' \<in> set ''y{nil}''"
    "CHR ''{'' \<in> set ''fine{gone}''" "CHR ''{'' \<in> set ''{ok}{gone}''"
    "CHR ''{'' \<in> set ''}{''"
    by simp_all
  have g: "''{'' @ ''u'' @ ''}'' \<noteq> ''x{gone}''" "''x{gone}'' \<noteq> ''null''" "''x{gone}'' \<noteq> ''true''"
    "count_list ''x{gone}'' CHR ''{'' = count_list ''x{gone}'' CHR ''}''"
    "''{'' @ ''v'' @ ''}'' \<noteq> ''y{nil}''" "''y{nil}'' \<noteq> ''null''" "''y{nil}'' \<noteq> ''true''"
    "count_list ''y{nil}'' CHR ''{'' = count_list ''y{nil}'' CHR ''}''"
    "''{'' @ ''w'' @ ''}'' \<noteq> ''{ok}{gone}''" "''{ok}{gone}'' \<noteq> ''null''"
    "''{ok}{gone}'' \<noteq> ''true''"
    "count_list ''{ok}{gone}'' CHR ''{'' = count_list ''{ok}{gone}'' CHR ''}''"
    "''{'' @ ''m.k'' @ ''}'' \<noteq> ''}{''" "''}{'' \<noteq> ''null''" "''}{'' \<noteq> ''true''"
    "count_list ''}{'' CHR ''{'' = count_list ''}{'' CHR ''}''"
    by simp_all
  have r: "replace ''{ok}{gone}'' (replace_of ''{ok}{gone}'') ''fine'' = ''fine{gone}''"
    "''fine{gone}'' \<noteq> ''{ok}{gone}''"
    "replace ''}{'' (replace_of ''}{'') [] = ''}{''"
    by (simp_all add: replace_def replace_of_def slice_def slice_bound_def)
  have h: "level_item missing_db missing_db ''h'' = VStr ''#{gone}''"
    "is_hash_ref (VStr ''#{gone}'')" "split_dot ''h'' = [''h'']"
    by (simp_all add: missing_db_def level_item_def is_hash_ref_def startswith_hash_def)
  have w2: "walk (Suc (Suc 0)) missing_db None missing_db missing_db VNone (split_dot ''u'')
      = Some (Inr (missing_db, VStr ''x{gone}''))"
    "walk (Suc (Suc 0)) missing_db None missing_db missing_db VNone (split_dot ''v'')
      = Some (Inr (missing_db, VStr ''y{nil}''))"
    by (rule walk_fuel_mono[OF missing_walk_u], simp, rule walk_fuel_mono[OF missing_walk_v], simp)
  have u1: "substitute (Suc (Suc 0)) missing_db None missing_db ''x{gone}'' = Some (Inl NotFound)"
    using nested_lookup_not_found[where item = "''x{gone}''" and plat = None
        and rkey = "''gone''" and n = 0 and db = missing_db and d = missing_db
        and rd = missing_db and ritem = VNone, THEN conjunct1]
      b(1) p(1) s(1) missing_walk_gone by simp
  have v1: "substitute (Suc (Suc 0)) missing_db None missing_db ''y{nil}'' = Some (Inl NotFound)"
    using nested_lookup_not_found[where item = "''y{nil}''" and plat = None
        and rkey = "''nil''" and n = 0 and db = missing_db and d = missing_db
        and rd = missing_db and ritem = "VStr ''null''", THEN conjunct1]
      b(2) p(2) s(2) missing_walk_nil by simp
  have 1: "lookup (Suc (Suc (Suc 0))) missing_db missing_db ''u'' None True = Some (Inl NotFound)"
    using nested_lookup_not_found[where plat = None and key = "''u''" and key' = "''u''" and m = "Suc (Suc 0)"
        and db = missing_db and self = missing_db and d = missing_db and s = "''x{gone}''"
        and s' = "''x{gone}''" and e = NotFound,
        THEN conjunct2, THEN conjunct2, THEN conjunct2, THEN conjunct2, THEN conjunct2]
      p(3,9) w2(1) g(1-4) u1 by blast
  have 2: "lookup (Suc (Suc (Suc 0))) missing_db missing_db ''v'' None True = Some (Inl NotFound)"
    using nested_lookup_not_found[where plat = None and key = "''v''" and key' = "''v''" and m = "Suc (Suc 0)"
        and db = missing_db and self = missing_db and d = missing_db and s = "''y{nil}''"
        and s' = "''y{nil}''" and e = NotFound,
        THEN conjunct2, THEN conjunct2, THEN conjunct2, THEN conjunct2, THEN conjunct2]
      p(4,10) w2(2) g(5-8) v1 by blast
  have w1: "substitute (Suc (Suc 0)) later_db None later_db ''fine{gone}'' = Some (Inl NotFound)"
    using nested_lookup_not_found[where item = "''fine{gone}''" and plat = None
        and rkey = "''gone''" and n = 0 and db = later_db and d = later_db
        and rd = later_db and ritem = VNone, THEN conjunct1]
      b(3) p(1) s(4) later_walk_gone by simp
  have w0: "substitute (Suc (Suc (Suc 0))) later_db None later_db ''{ok}{gone}''
      = Some (Inl NotFound)"
    using nested_lookup_not_found[where item = "''{ok}{gone}''" and plat = None
        and m = "Suc (Suc 0)" and db = later_db and d = later_db and sub = "''fine''"
        and e = NotFound, THEN conjunct2, THEN conjunct2, THEN conjunct1]
      b(4) later_nested_ok r(1,2) w1 by simp
  have 3: "lookup (Suc (Suc (Suc (Suc 0)))) later_db later_db ''w'' None True
      = Some (Inl NotFound)"
    using nested_lookup_not_found[where plat = None and key = "''w''" and key' = "''w''"
        and m = "Suc (Suc (Suc 0))" and db = later_db and self = later_db and d = later_db
        and s = "''{ok}{gone}''" and s' = "''{ok}{gone}''" and e = NotFound,
        THEN conjunct2, THEN conjunct2, THEN conjunct2, THEN conjunct2, THEN conjunct2]
      p(6,11) later_walk_w g(9-12) w0 by blast
  have m1: "substitute (Suc (Suc 0)) rootless_db None ?d ''}{'' = Some (Inl NotFound)"
    using nested_lookup_not_found[where item = "''}{''" and plat = None and n = 0
        and db = rootless_db and d = ?d and sub = "[]" and rkey = "[]"
        and rd = rootless_db and ritem = VNone, THEN conjunct2, THEN conjunct1]
      b(5) rootless_nested r(3) p(8) s(5) rootless_walk_root by simp
  have 4: "lookup (Suc (Suc (Suc 0))) rootless_db rootless_db ''m.k'' None True
      = Some (Inl NotFound)"
    using nested_lookup_not_found[where plat = None and key = "''m.k''" and key' = "''m.k''"
        and m = "Suc (Suc 0)" and db = rootless_db and self = rootless_db and d = ?d
        and s = "''}{''" and s' = "''}{''" and e = NotFound,
        THEN conjunct2, THEN conjunct2, THEN conjunct2, THEN conjunct2, THEN conjunct2]
      p(7,12) rootless_walk g(13-16) m1 by blast
  have hw: "walk (Suc 0) missing_db None missing_db missing_db VNone [''h'']
      = Some (Inl NotFound)"
    using nested_lookup_not_found[where lookupLvl = missing_db and d = missing_db
        and k = "''h''" and h = "''#{gone}''" and plat = None and rkey = "''gone''" and n = 0
        and db = missing_db and rd = missing_db and ritem = VNone and cur = VNone
        and ks = "[]", THEN conjunct2, THEN conjunct2, THEN conjunct2, THEN conjunct1]
      h(1,2) p(1) s(3) missing_walk_gone by simp
  have 5: "lookup (Suc (Suc 0)) missing_db missing_db ''h'' None True = Some (Inl NotFound)"
    using nested_lookup_not_found[where plat = None and key = "''h''" and key' = "''h''"
        and m = "Suc 0" and db = missing_db and self = missing_db and e = NotFound,
        THEN conjunct2, THEN conjunct2, THEN conjunct2, THEN conjunct2, THEN conjunct1]
      p(5) h(3) hw by simp
  from 1 2 3 4 5 show ?thesis by blast
qed

text \<open>
  C10 as stated fails where a reference resolved before aborts first: the string refers to
  the missing key \<open>gone\<close>, and the call with \<open>noneAllowed=True\<close> aborts with the type error
  that the value of \<open>flag\<close> raises, not with \<open>NotFound\<close>.
\<close>

theorem nested_lookup_not_found_counterexample:
  "fmlookup later_db ''msg'' = Some (VStr ''{flag}{gone}'') \<and>
   fmlookup later_db ''gone'' = None \<and>
   lookup 3 later_db later_db ''msg'' None True = Some (Inl TypeError)"
  by (simp add: numeral_3_eq_3 later_db_def lookup_eval)

section \<open>The retry against the root database\<close>

text \<open>
  C4. When replacing the first cross-reference by its value in the assimilated keys leaves
  the string as it was, the reference is resolved once more, in the root database. If the
  string is still unchanged the call aborts with \<open>NonTerminatingReference\<close>; otherwise the
  loop goes on with the new string.
\<close>

theorem substitution_retry:
  assumes key: "subPlat plat key = Inr key'"
    and w: "walk (Suc n) db plat self self VNone (split_dot key') = Some (Inr (d, VStr s))"
    and s: "''{'' @ key @ ''}'' \<noteq> s" "s \<noteq> ''null''" "s \<noteq> ''true''"
      "subPlat plat s = Inr s'" "count_list s' CHR ''{'' = count_list s' CHR ''}''"
    and brace: "CHR ''{'' \<in> set s'"
    and local: "lookup n db d (search_of s') plat False = Some (Inr (VStr sub))"
    and stall: "replace s' (replace_of s') sub = s'"
    and root: "lookup n db db (search_of s') plat False = Some (Inr (VStr sub'))"
  shows "(replace s' (replace_of s') sub' = s' \<longrightarrow>
            lookup (Suc (Suc n)) db self key plat noneAllowed
              = Some (Inl NonTerminatingReference)) \<and>
         (replace s' (replace_of s') sub' \<noteq> s' \<longrightarrow>
            lookup (Suc (Suc n)) db self key plat noneAllowed
              = (case substitute n db plat d (replace s' (replace_of s') sub') of
                   None \<Rightarrow> None
                 | Some (Inl e) \<Rightarrow> Some (Inl e)
                 | Some (Inr v) \<Rightarrow> finish noneAllowed v))"
  using local stall root
  by (simp add: lookup_walked_substitute[OF key w s] substitute_unfold[OF brace])

theorem substitution_retry_witness:
  "lookup (Suc (Suc (Suc 0))) stall_db stall_db ''k'' None False
     = Some (Inl NonTerminatingReference) \<and>
   lookup (Suc (Suc (Suc 0))) retry_db retry_db ''m.k'' None False
     = (case substitute (Suc 0) retry_db None
              (assimilate retry_db (fmap_of_list [([], VStr []), (''k'', VStr ''}{'')]))
              ''x}x{x'' of
          None \<Rightarrow> None
        | Some (Inl e) \<Rightarrow> Some (Inl e)
        | Some (Inr v) \<Rightarrow> finish False v)"
proof -
  have p: "subPlat None ''k'' = Inr ''k''" "subPlat None ''}{'' = Inr ''}{''"
    "subPlat None ''m.k'' = Inr ''m.k''"
    by (simp_all add: subPlat_def)
  have g: "''{'' @ ''k'' @ ''}'' \<noteq> ''}{''" "''}{'' \<noteq> ''null''" "''}{'' \<noteq> ''true''"
    "count_list ''}{'' CHR ''{'' = count_list ''}{'' CHR ''}''"
    "CHR ''{'' \<in> set ''}{''" "''{'' @ ''m.k'' @ ''}'' \<noteq> ''}{''"
    by simp_all
  have r: "replace ''}{'' (replace_of ''}{'') [] = ''}{''"
    "replace ''}{'' (replace_of ''}{'') ''x'' = ''x}x{x''" "''x}x{x'' \<noteq> ''}{''"
    by (simp_all add: replace_def replace_of_def slice_def slice_bound_def)
  note stall = substitution_retry[OF p(1) stall_walk g(1-3) p(2) g(4,5) stall_nested r(1)
      stall_nested, of False]
  note retry = substitution_retry[OF p(3) retry_walk g(6,2,3) p(2) g(4,5) retry_nested(1) r(1)
      retry_nested(2), of False]
  from stall r(1) have 1: "lookup (Suc (Suc (Suc 0))) stall_db stall_db ''k'' None False
      = Some (Inl NonTerminatingReference)"
    by blast
  from retry r(2,3) have 2: "lookup (Suc (Suc (Suc 0))) retry_db retry_db ''m.k'' None False
     = (case substitute (Suc 0) retry_db None
              (assimilate retry_db (fmap_of_list [([], VStr []), (''k'', VStr ''}{'')]))
              ''x}x{x'' of
          None \<Rightarrow> None
        | Some (Inl e) \<Rightarrow> Some (Inl e)
        | Some (Inr v) \<Rightarrow> finish False v)"
    by simp
  from 1 2 show ?thesis by blast
qed

section \<open>Inheritance\<close>

text \<open>
  C1. \<open>assimilate\<close> puts the keys of the dict being entered on top of the keys assimilated so
  far. A segment is looked up in the current level first and in the assimilated keys
  otherwise. A segment that yields a dict makes it the current level and assimilates it,
  so a key of that dict is found there whatever was inherited under the same name; and no
  key assimilated earlier ever leaves the assimilated keys. \<open>lookup\<close> starts with the keys
  of the root assimilated: a plain string under a key of the root is what \<open>lookup\<close> returns
  for that key below a dict of the root that does not hold it, and a dict that holds the
  key returns its own. In the database of the documentation, under the key \<open>root\<close> or at
  the root itself, \<open>john\<close> and \<open>jane\<close> inherit the surname \<open>Smith\<close> and \<open>alexa\<close> overrides it.
\<close>

theorem inheritance_walk:
  "fmlookup (assimilate d m) k' =
     (case fmlookup m k' of Some v \<Rightarrow> Some v | None \<Rightarrow> fmlookup d k') \<and>
   (fmlookup lookupLvl k = Some v \<longrightarrow> level_item lookupLvl d k = v) \<and>
   (fmlookup lookupLvl k = None \<longrightarrow>
      level_item lookupLvl d k = (case fmlookup d k of Some v \<Rightarrow> v | None \<Rightarrow> VNone)) \<and>
   (level_item lookupLvl d k = VDict m \<longrightarrow>
      walk n db plat d lookupLvl item (k # ks)
        = walk n db plat (assimilate d m) m (VDict m) ks) \<and>
   (level_item lookupLvl d k = VDict m \<and> fmlookup m k' = Some (VStr t) \<and> \<not> startswith_hash t
      \<longrightarrow> walk n db plat d lookupLvl item [k, k'] = Some (Inr (assimilate d m, VStr t))) \<and>
   (walk n db plat d lookupLvl item ks = Some (Inr (d', item')) \<and> k' |\<in>| fmdom d
      \<longrightarrow> k' |\<in>| fmdom d') \<and>
   (subPlat plat key = Inr key' \<and> split_dot key' = [k, k'] \<and>
    fmlookup self k = Some (VDict m) \<and> fmlookup m k' = None \<and>
    fmlookup self k' = Some (VStr t) \<and> \<not> startswith_hash t \<and>
    CHR ''{'' \<notin> set t \<and> CHR ''}'' \<notin> set t \<and> CHR ''@'' \<notin> set t \<and>
    t \<noteq> ''null'' \<and> t \<noteq> ''true''
      \<longrightarrow> lookup (Suc n) db self key plat noneAllowed = Some (Inr (VStr t))) \<and>
   (subPlat plat key = Inr key' \<and> split_dot key' = [k, k'] \<and>
    fmlookup self k = Some (VDict m) \<and> fmlookup m k' = Some (VStr t) \<and>
    \<not> startswith_hash t \<and>
    CHR ''{'' \<notin> set t \<and> CHR ''}'' \<notin> set t \<and> CHR ''@'' \<notin> set t \<and>
    t \<noteq> ''null'' \<and> t \<noteq> ''true''
      \<longrightarrow> lookup (Suc n) db self key plat noneAllowed = Some (Inr (VStr t))) \<and>
   lookup (Suc n) people_db people_db ''root.john.surname'' None False
     = Some (Inr (VStr ''Smith'')) \<and>
   lookup (Suc n) people_db people_db ''root.jane.surname'' None False
     = Some (Inr (VStr ''Smith'')) \<and>
   lookup (Suc n) people_db people_db ''root.alexa.surname'' None False
     = Some (Inr (VStr ''Smith-Doe'')) \<and>
   lookup (Suc n) family_db family_db ''john.surname'' None False
     = Some (Inr (VStr ''Smith'')) \<and>
   lookup (Suc n) family_db family_db ''jane.surname'' None False
     = Some (Inr (VStr ''Smith'')) \<and>
   lookup (Suc n) family_db family_db ''alexa.surname'' None False
     = Some (Inr (VStr ''Smith-Doe''))"
proof -
  have own: "walk n db plat d lookupLvl item [k, k'] = Some (Inr (assimilate d m, VStr t))"
    if "level_item lookupLvl d k = VDict m" "fmlookup m k' = Some (VStr t)"
      "\<not> startswith_hash t"
    using that by (simp add: walk_enter walk.simps(2) level_item_def is_hash_ref_def)
  have plain: "lookup (Suc n) db self key plat noneAllowed = Some (Inr (VStr t))"
    if key: "subPlat plat key = Inr key'"
      and w: "walk n db plat self self VNone (split_dot key') = Some (Inr (d, VStr t))"
      and t: "CHR ''{'' \<notin> set t" "CHR ''}'' \<notin> set t" "CHR ''@'' \<notin> set t"
        "t \<noteq> ''null''" "t \<noteq> ''true''"
    for d
  proof -
    from t(1) have a: "''{'' @ key @ ''}'' \<noteq> t" by auto
    from t(3) have b: "subPlat plat t = Inr t" by (simp add: subPlat_def)
    from t(1,2) have c: "count_list t CHR ''{'' = count_list t CHR ''}''"
      by (simp add: count_list_0_iff)
    show ?thesis
      using t(1) by (simp add: lookup_walked_substitute[OF key w a t(4,5) b c]
          substitute_plain finish_def)
  qed
  have root: "lookup (Suc n) db self key plat noneAllowed = Some (Inr (VStr t))"
    if "subPlat plat key = Inr key'" "split_dot key' = [k, k']"
      "fmlookup self k = Some (VDict m)" "fmlookup m k' = None"
      "fmlookup self k' = Some (VStr t)" "\<not> startswith_hash t"
      "CHR ''{'' \<notin> set t" "CHR ''}'' \<notin> set t" "CHR ''@'' \<notin> set t"
      "t \<noteq> ''null''" "t \<noteq> ''true''"
  proof -
    have "walk n db plat self self VNone (split_dot key')
        = Some (Inr (assimilate self m, VStr t))"
      using that(2-6)
      by (simp add: walk.simps(2) level_item_def is_hash_ref_def assimilate_lookup)
    from plain[OF that(1) this that(7-11)] show ?thesis .
  qed
  have child: "lookup (Suc n) db self key plat noneAllowed = Some (Inr (VStr t))"
    if "subPlat plat key = Inr key'" "split_dot key' = [k, k']"
      "fmlookup self k = Some (VDict m)" "fmlookup m k' = Some (VStr t)"
      "\<not> startswith_hash t"
      "CHR ''{'' \<notin> set t" "CHR ''}'' \<notin> set t" "CHR ''@'' \<notin> set t"
      "t \<noteq> ''null''" "t \<noteq> ''true''"
  proof -
    have "walk n db plat self self VNone (split_dot key')
        = Some (Inr (assimilate self m, VStr t))"
      using that(2-5)
      by (simp add: walk.simps(2) level_item_def is_hash_ref_def)
    from plain[OF that(1) this that(6-10)] show ?thesis .
  qed
  have people: "lookup (Suc n) people_db people_db ''root.jane.surname'' None False
       = Some (Inr (VStr ''Smith''))"
    "lookup (Suc n) people_db people_db ''root.alexa.surname'' None False
       = Some (Inr (VStr ''Smith-Doe''))"
    by (simp_all add: people_db_def lookup_eval substitute_plain)
  have family: "lookup (Suc n) family_db family_db ''john.surname'' None False
       = Some (Inr (VStr ''Smith''))"
    "lookup (Suc n) family_db family_db ''jane.surname'' None False
       = Some (Inr (VStr ''Smith''))"
    "lookup (Suc n) family_db family_db ''alexa.surname'' None False
       = Some (Inr (VStr ''Smith-Doe''))"
    by (simp_all add: family_db_def lookup_eval substitute_plain)
  have walks: "fmlookup (assimilate d m) k' =
       (case fmlookup m k' of Some v \<Rightarrow> Some v | None \<Rightarrow> fmlookup d k') \<and>
     (fmlookup lookupLvl k = Some v \<longrightarrow> level_item lookupLvl d k = v) \<and>
     (fmlookup lookupLvl k = None \<longrightarrow>
        level_item lookupLvl d k = (case fmlookup d k of Some v \<Rightarrow> v | None \<Rightarrow> VNone)) \<and>
     (level_item lookupLvl d k = VDict m \<longrightarrow>
        walk n db plat d lookupLvl item (k # ks)
          = walk n db plat (assimilate d m) m (VDict m) ks) \<and>
     (walk n db plat d lookupLvl item ks = Some (Inr (d', item')) \<and> k' |\<in>| fmdom d
        \<longrightarrow> k' |\<in>| fmdom d')"
    using walk_enter[of lookupLvl d k m n db plat item ks]
      walk_keeps_keys[of n db plat d lookupLvl item ks d' item' k']
    by (simp add: assimilate_lookup level_item_def)
  from walks own root child people family people_john_surname[of n]
  show ?thesis by blast
qed

theorem inheritance_walk_witness:
  "walk 0 people_db None people_db people_db VNone [''root'', ''surname'']
     = Some (Inr (assimilate people_db (fmap_of_list
         [(''surname'', VStr ''Smith''), (''john'', VDict fmempty), (''jane'', VDict fmempty),
          (''alexa'', VDict (fmap_of_list [(''surname'', VStr ''Smith-Doe'')]))]),
        VStr ''Smith'')) \<and>
   lookup (Suc 0) family_db family_db ''john.surname'' None True
     = Some (Inr (VStr ''Smith'')) \<and>
   lookup (Suc 0) family_db family_db ''alexa.surname'' None True
     = Some (Inr (VStr ''Smith-Doe''))"
proof -
  let ?m = "fmap_of_list
         [(''surname'', VStr ''Smith''), (''john'', VDict fmempty), (''jane'', VDict fmempty),
          (''alexa'', VDict (fmap_of_list [(''surname'', VStr ''Smith-Doe'')]))]"
  let ?a = "fmap_of_list [(''surname'', VStr ''Smith-Doe'')]"
  have a: "level_item people_db people_db ''root'' = VDict ?m"
    by (simp add: people_db_def level_item_def)
  have b: "fmlookup ?m ''surname'' = Some (VStr ''Smith'')" "\<not> startswith_hash ''Smith''"
    by (simp_all add: startswith_hash_def)
  have c: "subPlat None ''john.surname'' = Inr ''john.surname''"
    "split_dot ''john.surname'' = [''john'', ''surname'']"
    "fmlookup family_db ''john'' = Some (VDict fmempty)"
    "fmlookup fmempty ''surname'' = (None :: val option)"
    "fmlookup family_db ''surname'' = Some (VStr ''Smith'')"
    "CHR ''{'' \<notin> set ''Smith''" "CHR ''}'' \<notin> set ''Smith''" "CHR ''@'' \<notin> set ''Smith''"
    "''Smith'' \<noteq> ''null''" "''Smith'' \<noteq> ''true''"
    by (simp_all add: subPlat_def family_db_def)
  have e: "subPlat None ''alexa.surname'' = Inr ''alexa.surname''"
    "split_dot ''alexa.surname'' = [''alexa'', ''surname'']"
    "fmlookup family_db ''alexa'' = Some (VDict ?a)"
    "fmlookup ?a ''surname'' = Some (VStr ''Smith-Doe'')"
    "\<not> startswith_hash ''Smith-Doe''"
    "CHR ''{'' \<notin> set ''Smith-Doe''" "CHR ''}'' \<notin> set ''Smith-Doe''"
    "CHR ''@'' \<notin> set ''Smith-Doe''"
    "''Smith-Doe'' \<noteq> ''null''" "''Smith-Doe'' \<noteq> ''true''"
    by (simp_all add: subPlat_def family_db_def startswith_hash_def)
  note w = inheritance_walk[where lookupLvl = people_db and d = people_db and k = "''root''"
      and m = ?m and k' = "''surname''" and t = "''Smith''" and n = 0 and db = people_db
      and plat = None and item = VNone]
  note r = inheritance_walk[where plat = None and key = "''john.surname''"
      and key' = "''john.surname''" and k = "''john''" and k' = "''surname''"
      and self = family_db and m = fmempty and t = "''Smith''" and n = 0 and db = family_db
      and noneAllowed = True]
  note o = inheritance_walk[where plat = None and key = "''alexa.surname''"
      and key' = "''alexa.surname''" and k = "''alexa''" and k' = "''surname''"
      and self = family_db and m = ?a and t = "''Smith-Doe''" and n = 0 and db = family_db
      and noneAllowed = True]
  from w a b have 1: "walk 0 people_db None people_db people_db VNone [''root'', ''surname'']
     = Some (Inr (assimilate people_db ?m, VStr ''Smith''))"
    by blast
  from r c b(2) have 2: "lookup (Suc 0) family_db family_db ''john.surname'' None True
     = Some (Inr (VStr ''Smith''))"
    by blast
  from o e have 3: "lookup (Suc 0) family_db family_db ''alexa.surname'' None True
     = Some (Inr (VStr ''Smith-Doe''))"
    by blast
  from 1 2 3 show ?thesis by blast
qed

section \<open>Substitution of cross-references\<close>

text \<open>
  C3, as the code has it. For a string the walk ends on that is neither a reserved literal
  nor the self reference, \<open>subPlat\<close> is applied once to the whole string, and the loop then
  runs on the result while it holds an opening brace. Each pass takes the first opening
  and the first closing brace: the text between them is looked up in the assimilated keys,
  and when the value is a string every occurrence of the token, braces included, is
  replaced by it, the text before the first token being kept. A value that is not a
  string aborts the call with a type error. The example of the documentation resolves
  to \<open>Software 18.10\<close>.
\<close>

theorem template_substitution:
  "(CHR ''{'' \<notin> set pre \<and> CHR ''}'' \<notin> set pre \<and> CHR ''}'' \<notin> set x \<longrightarrow>
      search_of (pre @ ''{'' @ x @ ''}'' @ rest) = x \<and>
      replace_of (pre @ ''{'' @ x @ ''}'' @ rest) = ''{'' @ x @ ''}'' \<and>
      replace (pre @ ''{'' @ x @ ''}'' @ rest) (''{'' @ x @ ''}'') sub
        = pre @ sub @ replace rest (''{'' @ x @ ''}'') sub) \<and>
   (CHR ''{'' \<in> set item \<and> lookup n db d (search_of item) plat False = Some (Inr (VStr sub)) \<and>
    replace item (replace_of item) sub \<noteq> item \<longrightarrow>
      substitute (Suc n) db plat d item
        = substitute n db plat d (replace item (replace_of item) sub)) \<and>
   (CHR ''{'' \<in> set item \<and> lookup n db d (search_of item) plat False = Some (Inr v) \<and>
    (\<forall>s. v \<noteq> VStr s) \<longrightarrow>
      substitute (Suc n) db plat d item = Some (Inl TypeError)) \<and>
   (CHR ''{'' \<notin> set item \<longrightarrow> substitute n db plat d item = Some (Inr (VStr item))) \<and>
   (subPlat plat key = Inr key' \<and>
    walk n db plat self self VNone (split_dot key') = Some (Inr (d, VStr s)) \<and>
    ''{'' @ key @ ''}'' \<noteq> s \<and> s \<noteq> ''null'' \<and> s \<noteq> ''true'' \<and>
    subPlat plat s = Inr s' \<and> count_list s' CHR ''{'' = count_list s' CHR ''}'' \<longrightarrow>
      lookup (Suc n) db self key plat noneAllowed
        = (case substitute n db plat d s' of
             None \<Rightarrow> None
           | Some (Inl e) \<Rightarrow> Some (Inl e)
           | Some (Inr v) \<Rightarrow> finish noneAllowed v)) \<and>
   lookup (Suc (Suc (Suc n))) arm_db arm_db ''arm.title'' None False
     = Some (Inr (VStr ''Software 18.10''))"
proof -
  have pass: "substitute (Suc n) db plat d item
        = substitute n db plat d (replace item (replace_of item) sub)"
    if "CHR ''{'' \<in> set item" "lookup n db d (search_of item) plat False = Some (Inr (VStr sub))"
      "replace item (replace_of item) sub \<noteq> item"
    using that by (simp add: substitute_unfold)
  have other: "substitute (Suc n) db plat d item = Some (Inl TypeError)"
    if "CHR ''{'' \<in> set item" "lookup n db d (search_of item) plat False = Some (Inr v)"
      "\<forall>s. v \<noteq> VStr s"
    using that by (cases v) (simp_all add: substitute_unfold)
  show ?thesis
    using pass other first_token[of pre x rest] replace_first[of pre x rest sub]
      lookup_walked_substitute[of plat key key' n db self d s s' noneAllowed]
      substitute_plain[of item n db plat d] arm_title[of n]
    by blast
qed

theorem template_substitution_witness:
  "search_of ''Software {release}'' = ''release'' \<and>
   replace_of ''Software {release}'' = ''{release}'' \<and>
   replace ''Software {release}'' ''{release}'' ''18.10''
     = ''Software '' @ ''18.10'' @ replace [] ''{release}'' ''18.10'' \<and>
   substitute (Suc 0) arm_db None arm_db ''Software 18.10'' = Some (Inr (VStr ''Software 18.10''))"
proof -
  have a: "CHR ''{'' \<notin> set ''Software ''" "CHR ''}'' \<notin> set ''Software ''"
    "CHR ''}'' \<notin> set ''release''" "CHR ''{'' \<notin> set ''Software 18.10''"
    by simp_all
  note t = template_substitution[where pre = "''Software ''" and x = "''release''"
      and rest = "[]" and sub = "''18.10''" and item = "''Software 18.10''" and n = "Suc 0"
      and db = arm_db and plat = None and d = arm_db]
  from t a have "search_of (''Software '' @ ''{'' @ ''release'' @ ''}'' @ []) = ''release'' \<and>
      replace_of (''Software '' @ ''{'' @ ''release'' @ ''}'' @ []) = ''{'' @ ''release'' @ ''}'' \<and>
      replace (''Software '' @ ''{'' @ ''release'' @ ''}'' @ []) (''{'' @ ''release'' @ ''}'') ''18.10''
        = ''Software '' @ ''18.10'' @ replace [] (''{'' @ ''release'' @ ''}'') ''18.10'' \<and>
      substitute (Suc 0) arm_db None arm_db ''Software 18.10''
        = Some (Inr (VStr ''Software 18.10''))"
    by blast
  then show ?thesis by simp
qed

text \<open>
  C3 as stated fails where the value is not a string: \<open>flag\<close> resolves to \<open>True\<close>, and the
  string that refers to it aborts with the type error of \<open>str.replace\<close> instead of holding
  the text of \<open>True\<close>.
\<close>

theorem template_substitution_counterexample:
  "lookup 2 flag_db flag_db ''flag'' None False = Some (Inr (VBool True)) \<and>
   lookup 3 flag_db flag_db ''msg'' None False = Some (Inl TypeError)"
  by (simp add: numeral_2_eq_2 numeral_3_eq_3 flag_db_def lookup_eval)

section \<open>Hash references\<close>

text \<open>
  C2, as the code has it. A string \<open>#{X}\<close> with no brace in \<open>X\<close> is a hash reference to \<open>X\<close>.
  On a segment whose item is a hash reference the walk calls \<open>lookup\<close> for the reference in
  the assimilated keys, with the same platform, and goes on with the value returned. When
  the walk ends on a value that is neither a string nor \<open>None\<close>, such as a list, a dict or
  \<open>True\<close>, \<open>lookup\<close> returns it as it is; a string goes through the treatment of strings
  again. The example of the documentation returns the list.
\<close>

theorem hash_reference:
  "(CHR ''{'' \<notin> set x \<and> CHR ''}'' \<notin> set x \<longrightarrow>
      is_hash_ref (VStr (''#{'' @ x @ ''}'')) \<and> search_of (''#{'' @ x @ ''}'') = x) \<and>
   (level_item lookupLvl d k = VStr h \<and> is_hash_ref (VStr h) \<longrightarrow>
      walk n db plat d lookupLvl item [k] =
        (case lookup n db d (search_of h) plat False of
           None \<Rightarrow> None
         | Some (Inl e) \<Rightarrow> Some (Inl e)
         | Some (Inr v) \<Rightarrow>
             Some (Inr (case v of VDict m \<Rightarrow> assimilate d m | _ \<Rightarrow> d, v)))) \<and>
   (subPlat plat key = Inr key' \<and>
    walk n db plat self self VNone (split_dot key') = Some (Inr (d', v)) \<and>
    v \<noteq> VNone \<and> (\<forall>s. v \<noteq> VStr s) \<longrightarrow>
      lookup (Suc n) db self key plat noneAllowed = Some (Inr v)) \<and>
   (subPlat plat key = Inr key' \<and>
    walk n db plat self self VNone (split_dot key') = Some (Inr (d', VStr s)) \<and>
    ''{'' @ key @ ''}'' \<noteq> s \<and> s \<noteq> ''null'' \<and> s \<noteq> ''true'' \<and>
    subPlat plat s = Inr s' \<and> count_list s' CHR ''{'' = count_list s' CHR ''}'' \<longrightarrow>
      lookup (Suc n) db self key plat noneAllowed
        = (case substitute n db plat d' s' of
             None \<Rightarrow> None
           | Some (Inl e) \<Rightarrow> Some (Inl e)
           | Some (Inr v) \<Rightarrow> finish noneAllowed v)) \<and>
   lookup (Suc (Suc (Suc n))) alias_db alias_db ''b.k'' None False
     = Some (Inr (VList [VStr ''x'', VStr ''y'']))"
proof -
  have form: "is_hash_ref (VStr (''#{'' @ x @ ''}'')) \<and> search_of (''#{'' @ x @ ''}'') = x"
    if "CHR ''{'' \<notin> set x" "CHR ''}'' \<notin> set x"
    using that first_token(1)[of "''#''" x "[]"]
    by (simp add: is_hash_ref_def startswith_hash_def)
  have direct: "lookup (Suc n) db self key plat noneAllowed = Some (Inr v)"
    if "subPlat plat key = Inr key'"
      "walk n db plat self self VNone (split_dot key') = Some (Inr (d', v))"
      "v \<noteq> VNone" "\<forall>s. v \<noteq> VStr s"
    using that(3,4) by (cases v) (simp_all add: lookup_walked[OF that(1,2)] finish_def)
  have ex: "lookup (Suc (Suc (Suc n))) alias_db alias_db ''b.k'' None False
       = Some (Inr (VList [VStr ''x'', VStr ''y'']))"
    by (simp add: alias_db_def lookup_eval substitute_plain)
  show ?thesis
    using form direct ex walk_hash_last[of lookupLvl d k h n db plat item]
      lookup_walked_substitute[of plat key key' n db self d' s s' noneAllowed]
    by blast
qed

theorem hash_reference_witness:
  "is_hash_ref (VStr (''#{'' @ ''a.k'' @ ''}'')) \<and> search_of (''#{'' @ ''a.k'' @ ''}'') = ''a.k'' \<and>
   lookup (Suc (Suc 0)) alias_db alias_db ''b.k'' None False
     = Some (Inr (VList [VStr ''x'', VStr ''y'']))"
proof -
  have a: "CHR ''{'' \<notin> set ''a.k''" "CHR ''}'' \<notin> set ''a.k''"
    "subPlat None ''b.k'' = Inr ''b.k''"
    "VList [VStr ''x'', VStr ''y''] \<noteq> VNone" "\<forall>s. VList [VStr ''x'', VStr ''y''] \<noteq> VStr s"
    by (simp_all add: subPlat_def)
  note t = hash_reference[where x = "''a.k''" and plat = None and key = "''b.k''"
      and key' = "''b.k''" and n = "Suc 0" and db = alias_db and self = alias_db
      and d' = "assimilate alias_db (fmap_of_list [(''k'', VStr ''#{a.k}'')])"
      and v = "VList [VStr ''x'', VStr ''y'']" and noneAllowed = False]
  from t a alias_walk show ?thesis by blast
qed

text \<open>
  C2 as stated fails where the value returned for the reference is a string: \<open>a\<close> resolves
  to the string \<open>null\<close>, and the key \<open>c\<close> that refers to it does not return that string but
  decodes it, to \<open>None\<close> or to the abort \<open>NotFound\<close>.
\<close>

theorem hash_reference_counterexample:
  "lookup 3 joined_db joined_db ''a'' None True = Some (Inr (VStr ''null'')) \<and>
   lookup 4 joined_db joined_db ''c'' None True = Some (Inr VNone) \<and>
   lookup 4 joined_db joined_db ''c'' None False = Some (Inl NotFound)"
  by (simp add: eval_nat_numeral joined_db_def lookup_eval substitute_plain)

end
